theory Spec2Isabelle
  imports Main "HOL-Library.Word" "HOL-Library.Monad_Syntax"
begin

section \<open>The memory pool: bytes, ints and pointers\<close>

text \<open>
  The allocator of \<^verbatim>\<open>myalloc.c\<close> keeps all its bookkeeping inside one byte buffer
  \<^verbatim>\<open>mem\<close>.  The model keeps the bytes: memory is a map from addresses to bytes, a
  C \<^verbatim>\<open>int\<close> is four bytes and a pointer eight bytes, both little-endian (the LP64 data
  model, which the source presupposes when it speaks of the padding after the int tag of
  the \<^verbatim>\<open>node\<close> struct).  Addresses are mathematical integers; the null pointer is 0.
\<close>

type_synonym addr = int
type_synonym byte = "8 word"
type_synonym memory = "addr \<Rightarrow> byte"

abbreviation NULL :: addr where "NULL \<equiv> 0"

text \<open>Sizes and field offsets of \<^verbatim>\<open>struct node { int space; node *next; node *prev; }\<close>.\<close>

definition sizeof_int :: int where "sizeof_int = 4"
definition sizeof_ptr :: int where "sizeof_ptr = 8"
definition sizeof_node :: int where "sizeof_node = 24"
definition offset_next :: int where "offset_next = 8"
definition offset_prev :: int where "offset_prev = 16"

text \<open>Conversions of C: to \<^verbatim>\<open>int\<close> (32 bits, two's complement) and to \<^verbatim>\<open>size_t\<close> (64 bits).\<close>

definition to_int :: "int \<Rightarrow> int" where
  "to_int x = (x + 2 ^ 31) mod 2 ^ 32 - 2 ^ 31"

definition to_size_t :: "int \<Rightarrow> int" where
  "to_size_t x = x mod 2 ^ 64"

text \<open>The macro \<^verbatim>\<open>#define MAX(X, Y) (((X) > (Y)) ? (X) : (Y))\<close>.\<close>

definition MAX_macro :: "int \<Rightarrow> int \<Rightarrow> int" where
  "MAX_macro X Y = (if X > Y then X else Y)"

text \<open>Little-endian stores and loads of \<open>n\<close> bytes.\<close>

fun store_le :: "memory \<Rightarrow> addr \<Rightarrow> nat \<Rightarrow> int \<Rightarrow> memory" where
  "store_le h a 0 v = h"
| "store_le h a (Suc n) v = store_le (h(a := word_of_int v)) (a + 1) n (v div 256)"

fun load_le :: "memory \<Rightarrow> addr \<Rightarrow> nat \<Rightarrow> int" where
  "load_le h a 0 = 0"
| "load_le h a (Suc n) = uint (h a) + 256 * load_le h (a + 1) n"

definition load_int :: "memory \<Rightarrow> addr \<Rightarrow> int" where
  "load_int h a = to_int (load_le h a 4)"

definition store_int :: "memory \<Rightarrow> addr \<Rightarrow> int \<Rightarrow> memory" where
  "store_int h a v = store_le h a 4 v"

definition load_ptr :: "memory \<Rightarrow> addr \<Rightarrow> addr" where
  "load_ptr h a = load_le h a 8"

definition store_ptr :: "memory \<Rightarrow> addr \<Rightarrow> addr \<Rightarrow> memory" where
  "store_ptr h a p = store_le h a 8 p"

section \<open>The allocator state\<close>

text \<open>
  The three globals \<^verbatim>\<open>MEMORY_SIZE\<close>, \<^verbatim>\<open>mem\<close> and \<^verbatim>\<open>freeList\<close>, and the bytes of the
  address space.
\<close>

record state =
  MEMORY_SIZE :: int
  mem :: addr
  freeList :: addr
  heap :: memory

text \<open>\<^verbatim>\<open>*(int * ) a\<close> and the fields of a \<^verbatim>\<open>node\<close> at address \<open>p\<close>.\<close>

definition read_int :: "state \<Rightarrow> addr \<Rightarrow> int" where
  "read_int s a = load_int (heap s) a"

definition write_int :: "state \<Rightarrow> addr \<Rightarrow> int \<Rightarrow> state" where
  "write_int s a v = s\<lparr>heap := store_int (heap s) a v\<rparr>"

definition node_space :: "state \<Rightarrow> addr \<Rightarrow> int" where
  "node_space s p = load_int (heap s) p"

definition node_next :: "state \<Rightarrow> addr \<Rightarrow> addr" where
  "node_next s p = load_ptr (heap s) (p + offset_next)"

definition node_prev :: "state \<Rightarrow> addr \<Rightarrow> addr" where
  "node_prev s p = load_ptr (heap s) (p + offset_prev)"

definition set_space :: "state \<Rightarrow> addr \<Rightarrow> int \<Rightarrow> state" where
  "set_space s p v = s\<lparr>heap := store_int (heap s) p v\<rparr>"

definition set_next :: "state \<Rightarrow> addr \<Rightarrow> addr \<Rightarrow> state" where
  "set_next s p q = s\<lparr>heap := store_ptr (heap s) (p + offset_next) q\<rparr>"

definition set_prev :: "state \<Rightarrow> addr \<Rightarrow> addr \<Rightarrow> state" where
  "set_prev s p q = s\<lparr>heap := store_ptr (heap s) (p + offset_prev) q\<rparr>"

text \<open>
  A call either returns a value, aborts the process (\<^verbatim>\<open>abort()\<close> or a failed
  \<^verbatim>\<open>assert\<close>), or does not return at all (\<open>None\<close>): the two loops that follow
  pointers read from memory need not terminate.
\<close>

datatype error = Abort

type_synonym 'a result = "(error + 'a) option"

section \<open>Node functions\<close>

definition removeNode :: "state \<Rightarrow> addr \<Rightarrow> state" where
  "removeNode s badNode =
     (let prevNode = node_prev s badNode;
          nextNode = node_next s badNode;
          s1 = (if prevNode = NULL then s\<lparr>freeList := nextNode\<rparr>
                else set_next s prevNode nextNode)
      in if nextNode \<noteq> NULL then set_prev s1 nextNode prevNode else s1)"

definition addNode :: "state \<Rightarrow> addr \<Rightarrow> state" where
  "addNode s newNode =
     (let oldFirstNode = freeList s;
          s1 = set_next s newNode oldFirstNode;
          s2 = set_prev s1 newNode NULL;
          s3 = s2\<lparr>freeList := newNode\<rparr>
      in if oldFirstNode \<noteq> NULL then set_prev s3 oldFirstNode newNode else s3)"

definition coalesce :: "state \<Rightarrow> addr \<Rightarrow> addr \<Rightarrow> state" where
  "coalesce s headptrA headptrB =
     (let newSpace = to_int (node_space s headptrA + node_space s headptrB + 2 * sizeof_int);
          s1 = set_space s headptrA newSpace;
          footptr = headptrA + newSpace + sizeof_int;
          s2 = write_int s1 footptr newSpace
      in removeNode s2 headptrB)"

section \<open>Helper functions\<close>

partial_function (option) checkMem_loop :: "state \<Rightarrow> addr \<Rightarrow> int \<Rightarrow> int \<Rightarrow> int option" where
  "checkMem_loop s dataptr freeMem allocMem =
     (if dataptr = mem s + MEMORY_SIZE s then Some (to_int (allocMem + freeMem))
      else
        let headptr = dataptr;
            space = node_space s headptr;
            blockSize = to_int (\<bar>space\<bar> + 2 * sizeof_int)
        in if space < 0
           then checkMem_loop s (dataptr + blockSize) freeMem (to_int (allocMem + blockSize))
           else checkMem_loop s (dataptr + blockSize) (to_int (freeMem + blockSize)) allocMem)"

declare checkMem_loop.simps [code]

definition checkMem :: "state \<Rightarrow> int option" where
  "checkMem s = checkMem_loop s (mem s) 0 0"

definition isValid :: "state \<Rightarrow> addr \<Rightarrow> int" where
  "isValid s oldptr =
     (if mem s + sizeof_int > oldptr \<or> mem s + MEMORY_SIZE s - sizeof_int < oldptr then 0
      else
        let space = to_int (- read_int s (oldptr - sizeof_int))
        in if space < 0 \<or> oldptr + space > mem s + MEMORY_SIZE s - sizeof_int then 0
           else if read_int s (oldptr + space) \<noteq> - space then 0
           else 1)"

definition splitBlock :: "state \<Rightarrow> addr \<Rightarrow> int \<Rightarrow> state \<times> addr" where
  "splitBlock s headptr sz =
     (let dataptr = headptr;
          space = node_space s headptr;
          footptr = dataptr + sizeof_int + space;
          newFootptr = dataptr + sizeof_int + sz;
          newHeadptr = newFootptr + sizeof_int;
          newSpace = to_int (space - sz - 2 * sizeof_int);
          s1 = set_space s headptr sz;
          s2 = write_int s1 newFootptr sz;
          s3 = set_space s2 newHeadptr newSpace;
          s4 = write_int s3 footptr newSpace
      in (s4, newHeadptr))"

text \<open>
  The loop of \<^verbatim>\<open>findHead\<close>.  \<^verbatim>\<open>lowest\<close> is not initialised in the source; it is only
  read when \<^verbatim>\<open>resultptr\<close> is not null, after it has been assigned.
\<close>

partial_function (option) findHead_loop ::
    "state \<Rightarrow> int \<Rightarrow> addr \<Rightarrow> addr \<Rightarrow> int \<Rightarrow> addr option" where
  "findHead_loop s sz headptr resultptr lowest =
     (if headptr = NULL then Some resultptr
      else
        let space = node_space s headptr
        in if space = sz then Some headptr
           else if space > sz \<and> (resultptr = NULL \<or> space < lowest)
           then findHead_loop s sz (node_next s headptr) headptr space
           else findHead_loop s sz (node_next s headptr) resultptr lowest)"

declare findHead_loop.simps [code]

definition findHead :: "state \<Rightarrow> int \<Rightarrow> addr option" where
  "findHead s sz = findHead_loop s sz (freeList s) NULL 0"

section \<open>Allocator functions\<close>

text \<open>\<^verbatim>\<open>assert(checkMem() == MEMORY_SIZE)\<close>, followed by the return of \<open>r\<close>.\<close>

definition assert_checkMem :: "state \<Rightarrow> 'a \<Rightarrow> 'a result" where
  "assert_checkMem s r =
     (case checkMem s of
        None \<Rightarrow> None
      | Some n \<Rightarrow> if n = MEMORY_SIZE s then Some (Inr r) else Some (Inl Abort))"

text \<open>
  \<^verbatim>\<open>init_myalloc\<close>: \<open>base\<close> is what \<^verbatim>\<open>malloc(MEMORY_SIZE)\<close> returned; the bytes of the
  new buffer are whatever the memory holds.
\<close>

definition init_myalloc :: "state \<Rightarrow> addr \<Rightarrow> state result" where
  "init_myalloc s base =
     (let s0 = s\<lparr>mem := base\<rparr>
      in if mem s0 = NULL then Some (Inl Abort)
         else
           let s1 = s0\<lparr>freeList := NULL\<rparr>;
               headptr = mem s1;
               space = to_int (to_size_t (MEMORY_SIZE s1) - 2 * sizeof_int);
               s2 = set_space s1 headptr space;
               s3 = addNode s2 headptr;
               footptr = headptr + sizeof_int + space;
               s4 = write_int s3 footptr space
           in Some (Inr s4))"

text \<open>
  The body of \<^verbatim>\<open>myalloc\<close> once \<^verbatim>\<open>findHead\<close> has returned a block: split, unlink, mark
  as allocated.  It yields the state and \<^verbatim>\<open>resultptr\<close>.
\<close>

definition myalloc_block :: "state \<Rightarrow> addr \<Rightarrow> int \<Rightarrow> state \<times> addr" where
  "myalloc_block s headptr sz =
     (let space = node_space s headptr;
          sz1 = to_int (MAX_macro (to_size_t sz) (sizeof_node - sizeof_int));
          s1 = (if to_size_t space > to_size_t (to_size_t sz1 + sizeof_int + sizeof_node)
                then let (s', newHeadptr) = splitBlock s headptr sz1
                     in addNode s' newHeadptr
                else s);
          s2 = removeNode s1 headptr;
          space = node_space s2 headptr;
          resultptr = headptr + sizeof_int;
          footptr = resultptr + space;
          s3 = set_space s2 headptr (to_int (- space));
          s4 = write_int s3 footptr (to_int (- space))
      in (s4, resultptr))"

definition myalloc :: "state \<Rightarrow> int \<Rightarrow> (state \<times> addr) result" where
  "myalloc s sz =
     (case findHead s sz of
        None \<Rightarrow> None
      | Some headptr \<Rightarrow>
          if headptr = NULL then Some (Inr (s, NULL))
          else
            let (s4, resultptr) = myalloc_block s headptr sz
            in assert_checkMem s4 (s4, resultptr))"

text \<open>The two coalescing stages of \<^verbatim>\<open>myfree\<close>, on the locals \<^verbatim>\<open>headptr\<close>, \<^verbatim>\<open>dataptr\<close>, \<^verbatim>\<open>space\<close>.\<close>

definition myfree_backward :: "state \<Rightarrow> addr \<Rightarrow> int \<Rightarrow> state \<times> addr \<times> int" where
  "myfree_backward s headptr space =
     (let dataptr = headptr
      in if dataptr \<noteq> mem s
         then
           let prevFootptr = dataptr - sizeof_int;
               prevSpace = read_int s prevFootptr
           in if prevSpace > 0
              then
                let prevHeadptr = dataptr - prevSpace - 2 * sizeof_int;
                    s1 = coalesce s prevHeadptr headptr
                in (s1, prevHeadptr, node_space s1 prevHeadptr)
              else (s, headptr, space)
         else (s, headptr, space))"

definition myfree_forward :: "state \<Rightarrow> addr \<Rightarrow> int \<Rightarrow> state" where
  "myfree_forward s headptr space =
     (let dataptr = headptr;
          endptr = dataptr + space + 2 * sizeof_int
      in if endptr \<noteq> mem s + MEMORY_SIZE s
         then
           let nextHeadptr = endptr
           in if node_space s nextHeadptr > 0 then coalesce s headptr nextHeadptr else s
         else s)"

text \<open>The body of \<^verbatim>\<open>myfree\<close> between the validity check and the final assertion.\<close>

definition myfree_block :: "state \<Rightarrow> addr \<Rightarrow> state" where
  "myfree_block s oldptr =
     (let dataptr = oldptr - sizeof_int;
          headptr = dataptr;
          space = to_int (- node_space s headptr);
          footptr = oldptr + space;
          s1 = set_space s headptr space;
          s2 = write_int s1 footptr space;
          s3 = addNode s2 headptr;
          (s4, headptr, space) = myfree_backward s3 headptr space
      in myfree_forward s4 headptr space)"

definition myfree :: "state \<Rightarrow> addr \<Rightarrow> state result" where
  "myfree s oldptr =
     (if isValid s oldptr = 0 then Some (Inl Abort)
      else let s5 = myfree_block s oldptr in assert_checkMem s5 s5)"

text \<open>The byte-copy loop at the end of \<^verbatim>\<open>myrealloc\<close>.\<close>

function copy_loop :: "memory \<Rightarrow> addr \<Rightarrow> addr \<Rightarrow> int \<Rightarrow> int \<Rightarrow> int \<Rightarrow> memory" where
  "copy_loop h newptr oldptr i nSpace sz =
     (if i < nSpace \<and> i < sz
      then copy_loop (h(newptr + i := h (oldptr + i))) newptr oldptr (i + 1) nSpace sz
      else h)"
  by pat_completeness auto
termination
  by (relation "measure (\<lambda>(h, newptr, oldptr, i, nSpace, sz). nat (sz - i))") auto

declare copy_loop.simps [simp del]

text \<open>The rollback of \<^verbatim>\<open>myrealloc\<close>, taken when \<^verbatim>\<open>myalloc\<close> returned null.\<close>

definition myrealloc_undo ::
    "state \<Rightarrow> addr \<Rightarrow> int \<Rightarrow> addr \<Rightarrow> addr \<Rightarrow> int \<Rightarrow> addr \<Rightarrow> addr \<Rightarrow> addr \<Rightarrow> state" where
  "myrealloc_undo s oldHeadptr oldSpace oldFootptr prevHeadptr prevSpace nextHeadptr tempA tempB =
     (let s1 =
            (if prevHeadptr \<noteq> NULL \<and> nextHeadptr \<noteq> NULL
             then
               let (sa, _) = splitBlock s prevHeadptr prevSpace;
                   (sb, _) = splitBlock sa oldHeadptr oldSpace
               in addNode sb nextHeadptr
             else if prevHeadptr \<noteq> NULL
             then fst (splitBlock s prevHeadptr prevSpace)
             else if nextHeadptr \<noteq> NULL
             then
               let (sa, _) = splitBlock s oldHeadptr oldSpace;
                   sb = addNode sa nextHeadptr
               in removeNode sb oldHeadptr
             else removeNode s oldHeadptr);
          s2 = set_space s1 oldHeadptr (to_int (- oldSpace));
          s3 = set_next s2 oldHeadptr tempA;
          s4 = set_prev s3 oldHeadptr tempB
      in write_int s4 oldFootptr (to_int (- oldSpace)))"

definition myrealloc :: "state \<Rightarrow> addr \<Rightarrow> int \<Rightarrow> (state \<times> addr) result" where
  "myrealloc s oldptr sz =
     (let oldDataptr = oldptr - sizeof_int;
          oldHeadptr = oldDataptr;
          oldSpace = to_int (- node_space s oldHeadptr);
          oldFootptr = oldptr + oldSpace;
          endptr = oldFootptr + sizeof_int;
          tempA = node_next s oldHeadptr;
          tempB = node_prev s oldHeadptr;
          prevSpace = (if oldDataptr \<noteq> mem s then read_int s (oldDataptr - sizeof_int) else 0);
          prevHeadptr = (if oldDataptr \<noteq> mem s \<and> prevSpace > 0
                         then oldDataptr - prevSpace - 2 * sizeof_int else NULL);
          nextHeadptr = (if endptr \<noteq> mem s + MEMORY_SIZE s \<and> read_int s endptr > 0
                         then endptr else NULL)
      in case myfree s oldptr of
           None \<Rightarrow> None
         | Some (Inl e) \<Rightarrow> Some (Inl e)
         | Some (Inr sf) \<Rightarrow>
             (case myalloc sf sz of
                None \<Rightarrow> None
              | Some (Inl e) \<Rightarrow> Some (Inl e)
              | Some (Inr (sa, newptr)) \<Rightarrow>
                  if newptr = NULL
                  then Some (Inr (myrealloc_undo sa oldHeadptr oldSpace oldFootptr
                                    prevHeadptr prevSpace nextHeadptr tempA tempB, NULL))
                  else
                    let newDataptr = newptr - sizeof_int;
                        newHeadptr = newDataptr;
                        nSpace = to_int (- node_space sa newHeadptr);
                        sb = write_int sa newptr (read_int sa oldptr);
                        sc = set_next sb newHeadptr tempA;
                        sd = set_prev sc newHeadptr tempB;
                        i0 = sizeof_node - sizeof_int
                    in Some (Inr (sd\<lparr>heap := copy_loop (heap sd) newptr oldptr i0 nSpace sz\<rparr>,
                                  newptr))))"

section \<open>Concrete arenas\<close>

text \<open>
  The value a call returned, or \<open>d\<close> when the call aborted or did not return.
\<close>

definition returned :: "'a result \<Rightarrow> 'a \<Rightarrow> 'a" where
  "returned r d = (case r of Some (Inr x) \<Rightarrow> x | _ \<Rightarrow> d)"

text \<open>
  A pool of 200 bytes that \<^verbatim>\<open>malloc\<close> placed at address 1000, all bytes zero, and the
  states of a small run on it: three allocations of 20 bytes, then the first block freed.
\<close>

definition arena0 :: state where
  "arena0 = \<lparr>MEMORY_SIZE = 200, mem = NULL, freeList = NULL, heap = (\<lambda>_. 0)\<rparr>"

definition st_init :: state where
  "st_init = returned (init_myalloc arena0 1000) arena0"

definition st_a :: state where
  "st_a = fst (returned (myalloc st_init 20) (arena0, NULL))"

definition st_b :: state where
  "st_b = fst (returned (myalloc st_a 20) (arena0, NULL))"

definition st_c :: state where
  "st_c = fst (returned (myalloc st_b 20) (arena0, NULL))"

definition st_fa :: state where
  "st_fa = returned (myfree st_c 1004) arena0"

text \<open>
  The state inside \<^verbatim>\<open>myfree(1032)\<close> on \<open>st_fa\<close>, after the tags of the block are made
  positive and the block is added to the free list, before the backward coalescing.
\<close>

definition st_fb_mid :: state where
  "st_fb_mid = addNode (write_int (set_space st_fa 1028 20) 1052 20) 1028"

text \<open>
  The pool of 200 bytes after one allocation of 192 bytes: its only block is allocated and
  the free list is empty.
\<close>

definition st_full :: state where
  "st_full = fst (returned (myalloc st_init 192) (arena0, NULL))"

text \<open>
  A failed reallocation on \<open>st_fa\<close>: the block of payload pointer 1060 is followed by the
  free block at 1084, which is the second node of the free list; no block can hold 10000
  bytes.
\<close>

definition st_u :: state where
  "st_u = fst (returned (myrealloc st_fa 1060 10000) (arena0, NULL))"

text \<open>
  What a caller does with a block it owns: it writes the bytes \<open>1, 2, \<dots>, n\<close> to the
  payload at \<open>p\<close>.
\<close>

fun user_fill :: "memory \<Rightarrow> addr \<Rightarrow> nat \<Rightarrow> memory" where
  "user_fill h p 0 = h"
| "user_fill h p (Suc n) = (user_fill h p n)(p + int n := of_nat (Suc n))"

text \<open>
  A second run on the pool of 200 bytes: allocations of 20, 100 and 56 bytes (payload
  pointers 1004, 1032 and 1140) use up the pool; the caller fills the block of 100 bytes;
  the first block is freed; then the block of 100 bytes is reallocated to 50 bytes.
\<close>

definition st_r1 :: state where
  "st_r1 = fst (returned (myalloc st_a 100) (arena0, NULL))"

definition st_r2 :: state where
  "st_r2 = fst (returned (myalloc st_r1 56) (arena0, NULL))"

definition st_r3 :: state where
  "st_r3 = st_r2\<lparr>heap := user_fill (heap st_r2) 1032 100\<rparr>"

definition st_r4 :: state where
  "st_r4 = returned (myfree st_r3 1004) arena0"

definition st_r5 :: state where
  "st_r5 = fst (returned (myrealloc st_r4 1032 50) (arena0, NULL))"

text \<open>The pointer a call returned, without the state.\<close>

definition result_ptr :: "(state \<times> addr) result \<Rightarrow> (error + addr) option" where
  "result_ptr r = map_option (map_sum id snd) r"

text \<open>What a test reads off a state: the globals, some int cells and some pointer cells.\<close>

definition snapshot :: "state \<Rightarrow> addr list \<Rightarrow> addr list \<Rightarrow> int \<times> addr \<times> addr \<times> int list \<times> addr list" where
  "snapshot s is ps =
     (MEMORY_SIZE s, mem s, freeList s, map (load_int (heap s)) is, map (load_ptr (heap s)) ps)"

section \<open>The free list as a list of nodes, and best fit\<close>

text \<open>
  \<open>path h p ps q\<close>: following the \<^verbatim>\<open>next\<close> fields from \<open>p\<close> visits the nodes \<open>ps\<close> and
  arrives at \<open>q\<close>.  The free list is well formed when \<open>path h freeList ps NULL\<close>.

  \<open>best_fit\<close> is the specification of the search, in the words of the spec: among the
  blocks of the list whose payload is at least the request, the first one whose payload
  is the smallest; null when there is none.  \<open>scan\<close> is the loop of \<^verbatim>\<open>findHead\<close> run on
  the list of nodes.
\<close>

fun path :: "memory \<Rightarrow> addr \<Rightarrow> addr list \<Rightarrow> addr \<Rightarrow> bool" where
  "path h p [] q = (p = q)"
| "path h p (x # xs) q = (p = x \<and> x \<noteq> NULL \<and> path h (load_ptr h (x + offset_next)) xs q)"

definition fits :: "(addr \<Rightarrow> int) \<Rightarrow> int \<Rightarrow> addr list \<Rightarrow> addr list" where
  "fits sp sz ps = filter (\<lambda>p. sz \<le> sp p) ps"

definition min_space :: "(addr \<Rightarrow> int) \<Rightarrow> addr list \<Rightarrow> int" where
  "min_space sp cs = Min (sp ` set cs)"

definition best_fit :: "(addr \<Rightarrow> int) \<Rightarrow> addr list \<Rightarrow> int \<Rightarrow> addr" where
  "best_fit sp ps sz =
     (let cs = fits sp sz ps
      in if cs = [] then NULL
         else case find (\<lambda>p. sp p = min_space sp cs) cs of None \<Rightarrow> NULL | Some p \<Rightarrow> p)"

fun scan :: "(addr \<Rightarrow> int) \<Rightarrow> int \<Rightarrow> addr list \<Rightarrow> addr \<Rightarrow> int \<Rightarrow> addr" where
  "scan sp sz [] r low = r"
| "scan sp sz (x # xs) r low =
     (if sp x = sz then x
      else if sp x > sz \<and> (r = NULL \<or> sp x < low) then scan sp sz xs x (sp x)
      else scan sp sz xs r low)"

section \<open>Blocks, tags and the invariant\<close>

definition min_payload :: int where
  "min_payload = sizeof_node - sizeof_int"

definition block_size :: "int \<Rightarrow> int" where
  "block_size t = \<bar>t\<bar> + 2 * sizeof_int"

fun total :: "int list \<Rightarrow> int" where
  "total [] = 0"
| "total (t # ts) = block_size t + total ts"

fun tiles :: "memory \<Rightarrow> addr \<Rightarrow> int list \<Rightarrow> bool" where
  "tiles h a [] = True"
| "tiles h a (t # ts) =
     (load_int h a = t \<and> load_int h (a + sizeof_int + \<bar>t\<bar>) = t \<and> min_payload \<le> \<bar>t\<bar> \<and>
      tiles h (a + block_size t) ts)"

fun blocks :: "addr \<Rightarrow> int list \<Rightarrow> (addr \<times> int) list" where
  "blocks a [] = []"
| "blocks a (t # ts) = (a, t) # blocks (a + block_size t) ts"

definition free_addrs :: "addr \<Rightarrow> int list \<Rightarrow> addr list" where
  "free_addrs a ts = map fst (filter (\<lambda>(p, t). 0 < t) (blocks a ts))"

definition alloc_ptrs :: "addr \<Rightarrow> int list \<Rightarrow> addr list" where
  "alloc_ptrs a ts = map (\<lambda>(p, t). p + sizeof_int) (filter (\<lambda>(p, t). t < 0) (blocks a ts))"

fun no_adjacent_free :: "int list \<Rightarrow> bool" where
  "no_adjacent_free (t # u # ts) = (\<not> (0 < t \<and> 0 < u) \<and> no_adjacent_free (u # ts))"
| "no_adjacent_free ts = True"

fun dseg :: "memory \<Rightarrow> addr \<Rightarrow> addr \<Rightarrow> addr list \<Rightarrow> addr \<Rightarrow> bool" where
  "dseg h prv p [] e = (p = e)"
| "dseg h prv p (x # xs) e =
     (p = x \<and> x \<noteq> NULL \<and> load_ptr h (x + offset_prev) = prv \<and>
      dseg h x (load_ptr h (x + offset_next)) xs e)"

definition dlist :: "memory \<Rightarrow> addr \<Rightarrow> addr list \<Rightarrow> bool" where
  "dlist h p xs = dseg h NULL p xs NULL"

definition arena_ok :: "state \<Rightarrow> int list \<Rightarrow> addr list \<Rightarrow> bool" where
  "arena_ok s ts fl \<longleftrightarrow>
     0 < mem s \<and> mem s + MEMORY_SIZE s \<le> 2 ^ 64 \<and> MEMORY_SIZE s < 2 ^ 31 \<and>
     total ts = MEMORY_SIZE s \<and> tiles (heap s) (mem s) ts \<and>
     dlist (heap s) (freeList s) fl \<and> distinct fl \<and>
     set fl \<subseteq> set (free_addrs (mem s) ts)"

definition heap_inv :: "state \<Rightarrow> int list \<Rightarrow> addr list \<Rightarrow> bool" where
  "heap_inv s ts fl \<longleftrightarrow>
     arena_ok s ts fl \<and> set (free_addrs (mem s) ts) \<subseteq> set fl \<and> no_adjacent_free ts"

text \<open>\<open>h'\<close> differs from \<open>h\<close> at most on the addresses from \<open>lo\<close> up to \<open>hi - 1\<close>.\<close>

definition agree_outside :: "memory \<Rightarrow> memory \<Rightarrow> addr \<Rightarrow> addr \<Rightarrow> bool" where
  "agree_outside h h' lo hi \<longleftrightarrow> (\<forall>x. x < lo \<or> hi \<le> x \<longrightarrow> h' x = h x)"

definition separated :: "addr list \<Rightarrow> bool" where
  "separated xs \<longleftrightarrow> (\<forall>q\<in>set xs. \<forall>r\<in>set xs. q = r \<or> q + sizeof_node \<le> r \<or> r + sizeof_node \<le> q)"

definition alloc_tags :: "int \<Rightarrow> int \<Rightarrow> int list" where
  "alloc_tags t sz =
     (let e = max sz min_payload
      in if t > e + sizeof_int + sizeof_node then [- e, t - e - 2 * sizeof_int] else [- t])"

definition alloc_list :: "addr \<Rightarrow> int \<Rightarrow> int \<Rightarrow> addr list \<Rightarrow> addr list" where
  "alloc_list p t sz fl =
     (let e = max sz min_payload
      in if t > e + sizeof_int + sizeof_node then (p + e + 2 * sizeof_int) # remove1 p fl
         else remove1 p fl)"

definition free_tags :: "int list \<Rightarrow> int \<Rightarrow> int list \<Rightarrow> int list" where
  "free_tags ts1 t ts2 =
     (let bk = (ts1 \<noteq> [] \<and> 0 < last ts1);
          c = (if bk then last ts1 + (- t) + 2 * sizeof_int else - t);
          ts1' = (if bk then butlast ts1 else ts1)
      in if ts2 \<noteq> [] \<and> 0 < hd ts2 then ts1' @ (c + hd ts2 + 2 * sizeof_int) # tl ts2
         else ts1' @ c # ts2)"

definition free_list :: "addr \<Rightarrow> int list \<Rightarrow> int \<Rightarrow> int list \<Rightarrow> addr list \<Rightarrow> addr list" where
  "free_list p ts1 t ts2 fl =
     (let fl1 = (if ts1 \<noteq> [] \<and> 0 < last ts1 then fl else p # fl)
      in if ts2 \<noteq> [] \<and> 0 < hd ts2 then remove1 (p + block_size t) fl1 else fl1)"

section \<open>Loads and stores\<close>

lemma to_int_id: "- (2 ^ 31) \<le> x \<Longrightarrow> x < 2 ^ 31 \<Longrightarrow> to_int x = x"
  by (simp add: to_int_def)

lemma to_int_lower: "- (2 ^ 31) \<le> to_int x"
  by (simp add: to_int_def)

lemma to_int_upper: "to_int x < 2 ^ 31"
proof -
  have "(x + 2 ^ 31) mod 2 ^ 32 < (2 ^ 32 :: int)" by (rule pos_mod_bound) simp
  then show ?thesis by (simp add: to_int_def)
qed

lemma to_int_mod: "to_int (x mod 2 ^ 32) = to_int x"
proof -
  have "(x mod 2 ^ 32 + 2 ^ 31) mod 2 ^ 32 = (x + 2 ^ 31) mod (2 ^ 32 :: int)"
    by (rule mod_add_left_eq)
  then show ?thesis by (simp add: to_int_def)
qed

lemma store_le_outside: "x < a \<or> a + int n \<le> x \<Longrightarrow> store_le h a n v x = h x"
  by (induction n arbitrary: h a v) auto

lemma load_le_cong:
  "(\<And>x. a \<le> x \<Longrightarrow> x < a + int n \<Longrightarrow> h' x = h x) \<Longrightarrow> load_le h' a n = load_le h a n"
  by (induction n arbitrary: a) auto

lemma load_le_lower: "0 \<le> load_le h a n"
  by (induction n arbitrary: a) auto

lemma load_le_upper: "load_le h a n < 256 ^ n"
proof (induction n arbitrary: a)
  case 0 show ?case by simp
next
  case (Suc n)
  have "uint (h a) < 256" using uint_bounded [of "h a"] by simp
  moreover have "load_le h (a + 1) n + 1 \<le> 256 ^ n" using Suc [of "a + 1"] by simp
  then have "256 * (load_le h (a + 1) n + 1) \<le> 256 * 256 ^ n" by (simp only: mult_le_cancel_left_pos)
  ultimately show ?case by simp
qed

lemma load_le_store_le: "load_le (store_le h a n v) a n = v mod 256 ^ n"
proof (induction n arbitrary: h a v)
  case 0 show ?case by simp
next
  case (Suc n)
  have a: "store_le (h(a := word_of_int v)) (a + 1) n (v div 256) a = (word_of_int v :: byte)"
    by (simp add: store_le_outside)
  have "load_le (store_le h a (Suc n) v) a (Suc n)
      = uint (word_of_int v :: byte) + 256 * ((v div 256) mod 256 ^ n)"
    using a Suc by simp
  also have "uint (word_of_int v :: byte) = v mod 256" by (simp add: uint_word_of_int)
  also have "v mod 256 + 256 * ((v div 256) mod 256 ^ n) = v mod 256 ^ Suc n"
    using zmod_zmult2_eq [of "256 ^ n" v 256] by simp
  finally show ?case .
qed


lemma load_int_store_int: "load_int (store_int h a v) a = to_int v"
proof -
  have "load_le (store_le h a 4 v) a 4 = v mod 256 ^ 4" by (rule load_le_store_le)
  then show ?thesis using to_int_mod [of v] by (simp add: load_int_def store_int_def)
qed

lemma load_ptr_store_ptr: "load_ptr (store_ptr h a p) a = p mod 2 ^ 64"
proof -
  have "load_le (store_le h a 8 p) a 8 = p mod 256 ^ 8" by (rule load_le_store_le)
  then show ?thesis by (simp add: load_ptr_def store_ptr_def)
qed

lemma store_int_outside: "x < a \<or> a + 4 \<le> x \<Longrightarrow> store_int h a v x = h x"
  using store_le_outside [of x a 4 h v] by (simp add: store_int_def)

lemma store_ptr_outside: "x < a \<or> a + 8 \<le> x \<Longrightarrow> store_ptr h a p x = h x"
  using store_le_outside [of x a 8 h p] by (simp add: store_ptr_def)

lemma load_int_cong:
  "(\<And>x. a \<le> x \<Longrightarrow> x < a + 4 \<Longrightarrow> h' x = h x) \<Longrightarrow> load_int h' a = load_int h a"
  using load_le_cong [of a 4 h' h] by (simp add: load_int_def)

lemma load_ptr_cong:
  "(\<And>x. a \<le> x \<Longrightarrow> x < a + 8 \<Longrightarrow> h' x = h x) \<Longrightarrow> load_ptr h' a = load_ptr h a"
  using load_le_cong [of a 8 h' h] by (simp add: load_ptr_def)

lemma load_int_lower: "- (2 ^ 31) \<le> load_int h a"
  unfolding load_int_def by (rule to_int_lower)

lemma load_int_upper: "load_int h a < 2 ^ 31"
  unfolding load_int_def by (rule to_int_upper)

lemma load_ptr_lower: "0 \<le> load_ptr h a"
  unfolding load_ptr_def by (rule load_le_lower)

lemma load_ptr_upper: "load_ptr h a < 2 ^ 64"
  using load_le_upper [of h a 8] by (simp add: load_ptr_def)

lemma load_int_store_int_other:
  "a + 4 \<le> b \<or> b + 4 \<le> a \<Longrightarrow> load_int (store_int h b v) a = load_int h a"
  by (rule load_int_cong) (auto simp: store_int_outside)

lemma load_int_store_ptr_other:
  "a + 4 \<le> b \<or> b + 8 \<le> a \<Longrightarrow> load_int (store_ptr h b v) a = load_int h a"
  by (rule load_int_cong) (auto simp: store_ptr_outside)

lemma load_ptr_store_int_other:
  "a + 8 \<le> b \<or> b + 4 \<le> a \<Longrightarrow> load_ptr (store_int h b v) a = load_ptr h a"
  by (rule load_ptr_cong) (auto simp: store_int_outside)

lemma load_ptr_store_ptr_other:
  "a + 8 \<le> b \<or> b + 8 \<le> a \<Longrightarrow> load_ptr (store_ptr h b v) a = load_ptr h a"
  by (rule load_ptr_cong) (auto simp: store_ptr_outside)

section \<open>The validity check\<close>

text \<open>
  C7 (as amended).  A pointer whose header word (the int at \<open>payload - T\<close>) is strictly
  positive is rejected by \<^verbatim>\<open>isValid\<close>, wherever it points.  A header word of zero is
  not rejected by this test: see \<open>isValid_zero_header_accepted\<close>.
\<close>

theorem isValid_positive_header:
  "0 < read_int s (payload - sizeof_int) \<Longrightarrow> isValid s payload = 0"
proof -
  assume pos: "0 < read_int s (payload - sizeof_int)"
  have "read_int s (payload - sizeof_int) < 2 ^ 31"
    unfolding read_int_def by (rule load_int_upper)
  with pos have "to_int (- read_int s (payload - sizeof_int)) = - read_int s (payload - sizeof_int)"
    by (intro to_int_id) auto
  with pos show ?thesis by (simp add: isValid_def Let_def)
qed

theorem isValid_positive_header_witness:
  "0 < read_int st_init (1004 - sizeof_int) \<and> isValid st_init 1004 = 0"
proof -
  have h: "0 < read_int st_init (1004 - sizeof_int)" by code_simp
  show ?thesis using h isValid_positive_header [OF h] by simp
qed

text \<open>
  In the freshly initialised pool of zero bytes, the address 1040 lies in the acceptable
  range, its header word (at 1036) is 0, hence non-negative, and \<^verbatim>\<open>isValid\<close> returns 1.
\<close>

theorem isValid_zero_header_accepted:
  "mem st_init + sizeof_int \<le> 1040 \<and> 1040 \<le> mem st_init + MEMORY_SIZE st_init - sizeof_int \<and>
   0 \<le> read_int st_init (1040 - sizeof_int) \<and> isValid st_init 1040 = 1"
  by code_simp

section \<open>Backward coalescing in myfree\<close>

lemma st_fb_mid_mem: "mem st_fb_mid = 1000"
  by code_simp

lemma st_fb_mid_prev_footer: "read_int st_fb_mid 1024 = 20"
  by code_simp

section \<open>The best-fit search\<close>

lemma findHead_loop_scan:
  "path (heap s) p ps NULL \<Longrightarrow>
   findHead_loop s sz p r low = Some (scan (node_space s) sz ps r low)"
proof (induction ps arbitrary: p r low)
  case Nil
  then show ?case by (simp add: findHead_loop.simps)
next
  case (Cons x xs)
  from Cons.prems have px: "p = x" "x \<noteq> NULL" and nx: "path (heap s) (node_next s x) xs NULL"
    by (simp_all add: node_next_def)
  show ?case
    unfolding px
    by (subst findHead_loop.simps) (auto simp: px Let_def Cons.IH [OF nx])
qed

lemma findHead_loop_perfect:
  "path (heap s) p ps q \<Longrightarrow> q \<noteq> NULL \<Longrightarrow> node_space s q = sz \<Longrightarrow>
   \<forall>x\<in>set ps. node_space s x \<noteq> sz \<Longrightarrow> findHead_loop s sz p r low = Some q"
proof (induction ps arbitrary: p r low)
  case Nil
  then show ?case by (subst findHead_loop.simps) simp
next
  case (Cons x xs)
  from Cons.prems have px: "p = x" "x \<noteq> NULL" and nx: "path (heap s) (node_next s x) xs q"
    and nsz: "node_space s x \<noteq> sz" and rest: "\<forall>y\<in>set xs. node_space s y \<noteq> sz"
    by (simp_all add: node_next_def)
  show ?case
    unfolding px
    by (subst findHead_loop.simps)
       (simp add: px nsz Let_def Cons.IH [OF nx Cons.prems(2) Cons.prems(3) rest])
qed

lemma fits_Cons:
  "fits sp sz (x # xs) = (if sz \<le> sp x then x # fits sp sz xs else fits sp sz xs)"
  by (simp add: fits_def)

lemma fits_ge: "p \<in> set (fits sp sz xs) \<Longrightarrow> sz \<le> sp p"
  by (simp add: fits_def)

lemma min_space_Cons:
  "min_space sp (x # cs) = (if cs = [] then sp x else min (sp x) (min_space sp cs))"
proof (cases "cs = []")
  case True
  then show ?thesis by (simp add: min_space_def)
next
  case False
  then have "finite (sp ` set cs)" "sp ` set cs \<noteq> {}" by auto
  from Min_insert [OF this, of "sp x"] False show ?thesis by (simp add: min_space_def)
qed

lemma min_space_le: "p \<in> set cs \<Longrightarrow> min_space sp cs \<le> sp p"
  by (simp add: min_space_def)

lemma min_space_ge: "cs \<noteq> [] \<Longrightarrow> (\<And>p. p \<in> set cs \<Longrightarrow> k \<le> sp p) \<Longrightarrow> k \<le> min_space sp cs"
  by (simp add: min_space_def)

lemma min_space_fits_ge: "fits sp sz xs \<noteq> [] \<Longrightarrow> sz \<le> min_space sp (fits sp sz xs)"
  by (rule min_space_ge) (auto dest: fits_ge)

lemma best_fit_Nil: "best_fit sp [] sz = NULL"
  by (simp add: best_fit_def fits_def)

lemma best_fit_skip: "\<not> sz \<le> sp x \<Longrightarrow> best_fit sp (x # xs) sz = best_fit sp xs sz"
  by (simp add: best_fit_def fits_Cons)

lemma best_fit_Cons:
  assumes "sz \<le> sp x"
  shows "best_fit sp (x # xs) sz =
           (if fits sp sz xs = [] \<or> sp x \<le> min_space sp (fits sp sz xs) then x
            else best_fit sp xs sz)"
proof (cases "fits sp sz xs = []")
  case True
  with assms show ?thesis by (simp add: best_fit_def fits_Cons min_space_Cons)
next
  case False
  let ?cs = "fits sp sz xs"
  show ?thesis
  proof (cases "sp x \<le> min_space sp ?cs")
    case True
    with assms False show ?thesis by (simp add: best_fit_def fits_Cons min_space_Cons)
  next
    case le: False
    then have "min (sp x) (min_space sp ?cs) = min_space sp ?cs" "sp x \<noteq> min_space sp ?cs"
      by simp_all
    with assms le False show ?thesis by (simp add: best_fit_def fits_Cons min_space_Cons Let_def)
  qed
qed

lemma scan_best_fit:
  "sz < sp r \<Longrightarrow> r \<noteq> NULL \<Longrightarrow> NULL \<notin> set xs \<Longrightarrow>
   scan sp sz xs r (sp r) = best_fit sp (r # xs) sz"
proof (induction xs arbitrary: r)
  case Nil
  then show ?case by (simp add: best_fit_Cons fits_def)
next
  case (Cons x xs)
  have rfit: "sz \<le> sp r" using Cons.prems(1) by simp
  have xn: "x \<noteq> NULL" and xsn: "NULL \<notin> set xs" using Cons.prems(3) by auto
  let ?m = "min_space sp (fits sp sz xs)"
  have mge: "fits sp sz xs \<noteq> [] \<Longrightarrow> sz \<le> ?m" by (rule min_space_fits_ge)
  consider (eq) "sp x = sz" | (better) "sz < sp x" "sp x < sp r"
    | (worse) "sz < sp x" "sp r \<le> sp x" | (small) "sp x < sz"
    by linarith
  then show ?case
  proof cases
    case eq
    have "best_fit sp (r # x # xs) sz = x"
      using eq rfit Cons.prems(1) mge
      by (cases "fits sp sz xs = []") (simp_all add: best_fit_Cons fits_Cons min_space_Cons)
    then show ?thesis using eq by simp
  next
    case better
    have "best_fit sp (r # x # xs) sz = best_fit sp (x # xs) sz"
      using better rfit
      by (cases "fits sp sz xs = []") (simp_all add: best_fit_Cons fits_Cons min_space_Cons)
    with better Cons.IH [OF better(1) xn xsn] show ?thesis by simp
  next
    case worse
    have "best_fit sp (r # x # xs) sz = best_fit sp (r # xs) sz"
      using worse rfit
      by (cases "fits sp sz xs = []"; cases "sp r \<le> ?m")
         (simp_all add: best_fit_Cons fits_Cons min_space_Cons)
    with worse Cons.prems(2) Cons.IH [OF Cons.prems(1) Cons.prems(2) xsn] show ?thesis by simp
  next
    case small
    then have "best_fit sp (r # x # xs) sz = best_fit sp (r # xs) sz"
      using rfit by (simp add: best_fit_Cons fits_Cons best_fit_skip)
    with small Cons.prems(2) Cons.IH [OF Cons.prems(1) Cons.prems(2) xsn] show ?thesis by simp
  qed
qed

lemma scan_NULL_best_fit:
  "NULL \<notin> set xs \<Longrightarrow> scan sp sz xs NULL low = best_fit sp xs sz"
proof (induction xs)
  case Nil
  show ?case by (simp add: best_fit_Nil)
next
  case (Cons x xs)
  have xn: "x \<noteq> NULL" and xsn: "NULL \<notin> set xs" using Cons.prems by auto
  consider (eq) "sp x = sz" | (gt) "sz < sp x" | (small) "sp x < sz" by linarith
  then show ?case
  proof cases
    case eq
    then show ?thesis using min_space_fits_ge [of sp sz xs]
      by (cases "fits sp sz xs = []") (simp_all add: best_fit_Cons)
  next
    case gt
    then show ?thesis using scan_best_fit [of sz sp x xs, OF gt xn xsn] by simp
  next
    case small
    then show ?thesis using Cons.IH [OF xsn] by (simp add: best_fit_skip)
  qed
qed

lemma path_not_NULL: "path h p ps q \<Longrightarrow> NULL \<notin> set ps"
  by (induction ps arbitrary: p) auto

lemma min_space_attained: "cs \<noteq> [] \<Longrightarrow> \<exists>p\<in>set cs. sp p = min_space sp cs"
proof -
  assume "cs \<noteq> []"
  then have "Min (sp ` set cs) \<in> sp ` set cs" by (intro Min_in) auto
  then show ?thesis by (auto simp: min_space_def)
qed

lemma best_fit_in_fits:
  assumes "fits sp sz ps \<noteq> []"
  shows "best_fit sp ps sz \<in> set (fits sp sz ps)"
proof -
  let ?cs = "fits sp sz ps"
  from min_space_attained [OF assms] obtain p where "p \<in> set ?cs" "sp p = min_space sp ?cs"
    by blast
  then have "find (\<lambda>p. sp p = min_space sp ?cs) ?cs \<noteq> None"
    by (auto simp: find_None_iff)
  then obtain r where r: "find (\<lambda>p. sp p = min_space sp ?cs) ?cs = Some r" by blast
  then have "r \<in> set ?cs" by (auto simp: find_Some_iff)
  with r assms show ?thesis by (simp add: best_fit_def)
qed

lemma best_fit_none: "fits sp sz ps = [] \<Longrightarrow> best_fit sp ps sz = NULL"
  by (simp add: best_fit_def)

lemma fits_empty_iff: "fits sp sz ps = [] \<longleftrightarrow> (\<forall>p\<in>set ps. sp p < sz)"
  by (auto simp: fits_def filter_empty_conv)

lemma findHead_path:
  "path (heap s) (freeList s) ps NULL \<Longrightarrow> findHead s sz = Some (best_fit (node_space s) ps sz)"
proof -
  assume p: "path (heap s) (freeList s) ps NULL"
  have "findHead s sz = Some (scan (node_space s) sz ps NULL 0)"
    unfolding findHead_def by (rule findHead_loop_scan [OF p])
  then show ?thesis using path_not_NULL [OF p] by (simp add: scan_NULL_best_fit)
qed

lemma assert_checkMem_Inr: "assert_checkMem s r = Some (Inr x) \<Longrightarrow> x = r"
  by (simp add: assert_checkMem_def split: option.splits if_splits)

lemma st_fa_snapshot:
  "snapshot st_fa [1000, 1084] [1008, 1092] = (200, 1000, 1000, [20, 108], [1084, NULL])"
  by code_simp

lemma st_init_snapshot:
  "snapshot st_init [1000, 1196] [1008, 1016] = (200, 1000, 1000, [192, 192], [NULL, NULL])"
  by code_simp

text \<open>
  C3.  On a well-formed free list (the \<^verbatim>\<open>next\<close> fields lead from \<^verbatim>\<open>freeList\<close> through the
  nodes \<open>ps\<close> to null), \<^verbatim>\<open>findHead(size)\<close> returns the first block of the list whose
  payload is the smallest payload that is at least \<open>size\<close>, and null when no block has a
  payload of at least \<open>size\<close>.  The scan stops at the first block whose payload equals
  \<open>size\<close>: that block is returned whatever the list holds behind it.
\<close>

theorem findHead_best_fit:
  "(path (heap s) (freeList s) ps NULL \<longrightarrow>
      findHead s sz = Some (best_fit (node_space s) ps sz)) \<and>
   (path (heap s) (freeList s) ps q \<and> q \<noteq> NULL \<and> node_space s q = sz \<and>
      (\<forall>x\<in>set ps. node_space s x \<noteq> sz) \<longrightarrow> findHead s sz = Some q)"
proof (intro conjI impI)
  assume "path (heap s) (freeList s) ps NULL"
  then show "findHead s sz = Some (best_fit (node_space s) ps sz)" by (rule findHead_path)
next
  assume a: "path (heap s) (freeList s) ps q \<and> q \<noteq> NULL \<and> node_space s q = sz \<and>
      (\<forall>x\<in>set ps. node_space s x \<noteq> sz)"
  then show "findHead s sz = Some q"
    unfolding findHead_def by (intro findHead_loop_perfect [of s _ ps q]) simp_all
qed

theorem findHead_best_fit_witness:
  "path (heap st_fa) (freeList st_fa) [1000, 1084] NULL \<and>
   findHead st_fa 50 = Some 1084 \<and> findHead st_fa 10 = Some 1000 \<and>
   findHead st_fa 109 = Some NULL \<and>
   path (heap st_fa) (freeList st_fa) [1000] 1084 \<and> node_space st_fa 1084 = 108 \<and>
   node_space st_fa 1000 \<noteq> 108 \<and> findHead st_fa 108 = Some 1084"
proof -
  have f: "freeList st_fa = 1000" "load_int (heap st_fa) 1000 = 20"
    "load_int (heap st_fa) 1084 = 108" "load_ptr (heap st_fa) 1008 = 1084"
    "load_ptr (heap st_fa) 1092 = NULL"
    using st_fa_snapshot by (simp_all add: snapshot_def)
  have p1: "path (heap st_fa) (freeList st_fa) [1000, 1084] NULL"
    by (simp add: f offset_next_def)
  have p2: "path (heap st_fa) (freeList st_fa) [1000] 1084"
    by (simp add: f offset_next_def)
  have sp: "node_space st_fa 1000 = 20" "node_space st_fa 1084 = 108"
    by (simp_all add: node_space_def f)
  have b: "best_fit (node_space st_fa) [1000, 1084] 50 = 1084"
    "best_fit (node_space st_fa) [1000, 1084] 10 = 1000"
    "best_fit (node_space st_fa) [1000, 1084] 109 = NULL"
    by (simp_all add: best_fit_def fits_def min_space_def sp)
  show ?thesis
    using findHead_best_fit [of st_fa "[1000, 1084]" 50 NULL]
      findHead_best_fit [of st_fa "[1000, 1084]" 10 NULL]
      findHead_best_fit [of st_fa "[1000, 1084]" 109 NULL]
      findHead_best_fit [of st_fa "[1000]" 108 1084] p1 p2 sp b
    by simp
qed

lemma myalloc_block_ptr: "snd (myalloc_block s headptr sz) = headptr + sizeof_int"
  unfolding myalloc_block_def Let_def by (rule snd_conv)

lemmas sizes = sizeof_int_def sizeof_ptr_def sizeof_node_def offset_next_def offset_prev_def
  min_payload_def block_size_def

lemma agree_outside_refl: "agree_outside h h lo hi"
  by (simp add: agree_outside_def)

lemma agree_outside_mono:
  "agree_outside h h' lo hi \<Longrightarrow> lo' \<le> lo \<Longrightarrow> hi \<le> hi' \<Longrightarrow> agree_outside h h' lo' hi'"
  by (auto simp: agree_outside_def)

lemma agree_outside_trans:
  "agree_outside h h' lo hi \<Longrightarrow> agree_outside h' h'' lo hi \<Longrightarrow> agree_outside h h'' lo hi"
  by (auto simp: agree_outside_def)

lemma agree_store_int: "lo \<le> a \<Longrightarrow> a + 4 \<le> hi \<Longrightarrow> agree_outside h (store_int h a v) lo hi"
  by (auto simp: agree_outside_def store_int_outside)

lemma agree_store_ptr: "lo \<le> a \<Longrightarrow> a + 8 \<le> hi \<Longrightarrow> agree_outside h (store_ptr h a v) lo hi"
  by (auto simp: agree_outside_def store_ptr_outside)

lemma agree_store_int_step:
  "agree_outside h h' lo hi \<Longrightarrow> lo \<le> a \<Longrightarrow> a + 4 \<le> hi \<Longrightarrow>
   agree_outside h (store_int h' a v) lo hi"
  by (auto simp: agree_outside_def store_int_outside)

lemma agree_store_ptr_step:
  "agree_outside h h' lo hi \<Longrightarrow> lo \<le> a \<Longrightarrow> a + 8 \<le> hi \<Longrightarrow>
   agree_outside h (store_ptr h' a v) lo hi"
  by (auto simp: agree_outside_def store_ptr_outside)

lemma load_int_agree:
  "agree_outside h h' lo hi \<Longrightarrow> a + 4 \<le> lo \<or> hi \<le> a \<Longrightarrow> load_int h' a = load_int h a"
  by (rule load_int_cong) (auto simp: agree_outside_def)

lemma load_ptr_agree:
  "agree_outside h h' lo hi \<Longrightarrow> a + 8 \<le> lo \<or> hi \<le> a \<Longrightarrow> load_ptr h' a = load_ptr h a"
  by (rule load_ptr_cong) (auto simp: agree_outside_def)

lemma block_size_pos: "8 \<le> block_size t"
  by (simp add: sizes)

lemma total_nonneg: "0 \<le> total ts"
  by (induction ts) (auto simp: sizes)

lemma total_append: "total (ts1 @ ts2) = total ts1 + total ts2"
  by (induction ts1) auto

lemma tiles_append: "tiles h a (ts1 @ ts2) = (tiles h a ts1 \<and> tiles h (a + total ts1) ts2)"
  by (induction ts1 arbitrary: a) (auto simp: add.assoc)

lemma blocks_append: "blocks a (ts1 @ ts2) = blocks a ts1 @ blocks (a + total ts1) ts2"
  by (induction ts1 arbitrary: a) (auto simp: add.assoc)

lemma blocks_bounds: "(q, u) \<in> set (blocks a ts) \<Longrightarrow> a \<le> q \<and> q + block_size u \<le> a + total ts"
proof (induction ts arbitrary: a)
  case Nil
  then show ?case by simp
next
  case (Cons t ts)
  show ?case
  proof (cases "(q, u) = (a, t)")
    case True
    then show ?thesis using total_nonneg [of ts] by simp
  next
    case False
    with Cons.prems have "(q, u) \<in> set (blocks (a + block_size t) ts)" by auto
    from Cons.IH [OF this] show ?thesis using block_size_pos [of t] by simp
  qed
qed

lemma tiles_agree_below:
  "agree_outside h h' lo hi \<Longrightarrow> a + total ts \<le> lo \<Longrightarrow> tiles h' a ts = tiles h a ts"
proof (induction ts arbitrary: a)
  case Nil
  show ?case by simp
next
  case (Cons t ts)
  have 1: "load_int h' a = load_int h a"
    using Cons.prems total_nonneg [of ts] by (intro load_int_agree [of h h' lo hi]) (auto simp: sizes)
  have 2: "load_int h' (a + sizeof_int + \<bar>t\<bar>) = load_int h (a + sizeof_int + \<bar>t\<bar>)"
    using Cons.prems total_nonneg [of ts] by (intro load_int_agree [of h h' lo hi]) (auto simp: sizes)
  have 3: "tiles h' (a + block_size t) ts = tiles h (a + block_size t) ts"
    using Cons.prems by (intro Cons.IH) auto
  show ?case by (simp add: 1 2 3)
qed

lemma tiles_agree_above:
  "agree_outside h h' lo hi \<Longrightarrow> hi \<le> a \<Longrightarrow> tiles h' a ts = tiles h a ts"
proof (induction ts arbitrary: a)
  case Nil
  show ?case by simp
next
  case (Cons t ts)
  have 1: "load_int h' a = load_int h a"
    using Cons.prems by (intro load_int_agree [of h h' lo hi]) auto
  have 2: "load_int h' (a + sizeof_int + \<bar>t\<bar>) = load_int h (a + sizeof_int + \<bar>t\<bar>)"
    using Cons.prems by (intro load_int_agree [of h h' lo hi]) (auto simp: sizes)
  have 3: "tiles h' (a + block_size t) ts = tiles h (a + block_size t) ts"
    using Cons.prems block_size_pos [of t] by (intro Cons.IH) auto
  show ?case by (simp add: 1 2 3)
qed

text \<open>A change inside the payload of one block leaves the tiling as it is.\<close>

lemma tiles_agree_payload:
  assumes "agree_outside h h' lo hi"
    and "a + total ts1 + sizeof_int \<le> lo" and "hi \<le> a + total ts1 + sizeof_int + \<bar>t\<bar>"
  shows "tiles h' a (ts1 @ t # ts2) = tiles h a (ts1 @ t # ts2)"
proof -
  let ?p = "a + total ts1"
  have 1: "tiles h' a ts1 = tiles h a ts1"
    using assms by (intro tiles_agree_below [of h h' lo hi]) (auto simp: sizes)
  have 2: "load_int h' ?p = load_int h ?p"
    using assms by (intro load_int_agree [of h h' lo hi]) (auto simp: sizes)
  have 3: "load_int h' (?p + sizeof_int + \<bar>t\<bar>) = load_int h (?p + sizeof_int + \<bar>t\<bar>)"
    using assms by (intro load_int_agree [of h h' lo hi]) (auto simp: sizes)
  have 4: "tiles h' (?p + block_size t) ts2 = tiles h (?p + block_size t) ts2"
    using assms by (intro tiles_agree_above [of h h' lo hi]) (auto simp: sizes)
  show ?thesis by (simp add: tiles_append 1 2 3 4)
qed

lemma tiles_header: "tiles h a (ts1 @ t # ts2) \<Longrightarrow> load_int h (a + total ts1) = t"
  by (simp add: tiles_append)

lemma tiles_footer:
  "tiles h a (ts1 @ t # ts2) \<Longrightarrow> load_int h (a + total ts1 + sizeof_int + \<bar>t\<bar>) = t"
  by (simp add: tiles_append)

lemma tiles_min: "tiles h a (ts1 @ t # ts2) \<Longrightarrow> min_payload \<le> \<bar>t\<bar>"
  by (simp add: tiles_append)

lemma free_addrs_append:
  "free_addrs a (ts1 @ ts2) = free_addrs a ts1 @ free_addrs (a + total ts1) ts2"
  by (simp add: free_addrs_def blocks_append)

lemma free_addrs_Cons:
  "free_addrs a (t # ts) = (if 0 < t then [a] else []) @ free_addrs (a + block_size t) ts"
  by (simp add: free_addrs_def)

lemma free_addrs_blocks: "q \<in> set (free_addrs a ts) \<longleftrightarrow> (\<exists>u. (q, u) \<in> set (blocks a ts) \<and> 0 < u)"
  by (force simp: free_addrs_def)

lemma tiles_block:
  "tiles h a ts \<Longrightarrow> (q, u) \<in> set (blocks a ts) \<Longrightarrow>
   load_int h q = u \<and> load_int h (q + sizeof_int + \<bar>u\<bar>) = u \<and> min_payload \<le> \<bar>u\<bar>"
  by (induction ts arbitrary: a) auto

lemma free_addrs_split:
  "q \<in> set (free_addrs a ts) \<Longrightarrow>
   \<exists>ts1 t ts2. ts = ts1 @ t # ts2 \<and> q = a + total ts1 \<and> 0 < t"
proof (induction ts arbitrary: a)
  case Nil
  then show ?case by (simp add: free_addrs_def)
next
  case (Cons t ts)
  show ?case
  proof (cases "q = a \<and> 0 < t")
    case True
    then have "t # ts = [] @ t # ts \<and> q = a + total [] \<and> 0 < t" by simp
    then show ?thesis by blast
  next
    case False
    have "a < a + block_size t" using block_size_pos [of t] by simp
    with False Cons.prems have "q \<in> set (free_addrs (a + block_size t) ts)"
      by (auto simp: free_addrs_Cons split: if_splits)
    from Cons.IH [OF this] obtain ts1 u ts2 where
      "ts = ts1 @ u # ts2" "q = a + block_size t + total ts1" "0 < u" by blast
    then have "t # ts = (t # ts1) @ u # ts2 \<and> q = a + total (t # ts1) \<and> 0 < u" by simp
    then show ?thesis by blast
  qed
qed

text \<open>Two blocks of a tiling that start at different addresses do not overlap.\<close>

lemma blocks_apart:
  assumes "(q, u) \<in> set (blocks a (ts1 @ t # ts2))"
  shows "q + block_size u \<le> a + total ts1 \<or> (q = a + total ts1 \<and> u = t) \<or>
         a + total ts1 + block_size t \<le> q"
proof -
  from assms have "(q, u) \<in> set (blocks a ts1) \<or> (q, u) = (a + total ts1, t) \<or>
      (q, u) \<in> set (blocks (a + total ts1 + block_size t) ts2)"
    by (auto simp: blocks_append)
  then show ?thesis using blocks_bounds [of q u a ts1]
      blocks_bounds [of q u "a + total ts1 + block_size t" ts2] by auto
qed

lemma free_addrs_apart:
  assumes "q \<in> set (free_addrs a (ts1 @ t # ts2))" and "tiles h a (ts1 @ t # ts2)"
  shows "q + 28 \<le> a + total ts1 \<or> (q = a + total ts1 \<and> 0 < t) \<or> a + total ts1 + block_size t \<le> q"
proof -
  from assms(1) obtain u where u: "(q, u) \<in> set (blocks a (ts1 @ t # ts2))" "0 < u"
    by (auto simp: free_addrs_blocks)
  from tiles_block [OF assms(2) u(1)] have "28 \<le> block_size u" by (simp add: sizes)
  with blocks_apart [OF u(1)] u(2) show ?thesis by auto
qed

lemma dseg_agree:
  "agree_outside h h' lo hi \<Longrightarrow> \<forall>q\<in>set xs. hi \<le> q + 8 \<or> q + 24 \<le> lo \<Longrightarrow>
   dseg h' prv p xs e = dseg h prv p xs e"
proof (induction xs arbitrary: prv p)
  case Nil
  show ?case by simp
next
  case (Cons x xs)
  have 1: "load_ptr h' (x + offset_prev) = load_ptr h (x + offset_prev)"
    using Cons.prems by (intro load_ptr_agree [of h h' lo hi]) (auto simp: sizes)
  have 2: "load_ptr h' (x + offset_next) = load_ptr h (x + offset_next)"
    using Cons.prems by (intro load_ptr_agree [of h h' lo hi]) (auto simp: sizes)
  have 3: "dseg h' x (load_ptr h (x + offset_next)) xs e = dseg h x (load_ptr h (x + offset_next)) xs e"
    using Cons.prems by (intro Cons.IH) auto
  show ?case by (simp add: 1 2 3)
qed

lemma dseg_store_ptr:
  "\<forall>q\<in>set xs. b \<le> q \<or> q + 24 \<le> b \<Longrightarrow>
   dseg (store_ptr h b v) prv p xs e = dseg h prv p xs e"
  by (rule dseg_agree [of h _ b "b + 8"]) (auto intro: agree_store_ptr)

lemma dseg_store_int:
  "\<forall>q\<in>set xs. b + 4 \<le> q + 8 \<or> q + 24 \<le> b \<Longrightarrow>
   dseg (store_int h b v) prv p xs e = dseg h prv p xs e"
  by (rule dseg_agree [of h _ b "b + 4"]) (auto intro: agree_store_int)

lemma dseg_append:
  "dseg h prv p (xs @ ys) e = (\<exists>m. dseg h prv p xs m \<and> dseg h (last (prv # xs)) m ys e)"
  by (induction xs arbitrary: prv p) auto

lemma dseg_path: "dseg h prv p xs e \<Longrightarrow> path h p xs e"
  by (induction xs arbitrary: prv p) auto

lemma dlist_path: "dlist h p xs \<Longrightarrow> path h p xs NULL"
  unfolding dlist_def by (rule dseg_path)

lemma dseg_mid:
  assumes "dseg h prv f (xs @ p # ys) e"
  shows "load_ptr h (p + offset_prev) = last (prv # xs)"
    and "load_ptr h (p + offset_next) = (if ys = [] then e else hd ys)"
    and "p \<noteq> NULL"
    and "dseg h prv f xs p"
    and "dseg h p (load_ptr h (p + offset_next)) ys e"
proof -
  from assms obtain m where m: "dseg h prv f xs m" "dseg h (last (prv # xs)) m (p # ys) e"
    by (auto simp: dseg_append)
  from m(2) show "load_ptr h (p + offset_prev) = last (prv # xs)" by simp
  from m(2) show "p \<noteq> NULL" by simp
  from m show "dseg h prv f xs p" by simp
  from m(2) show "dseg h p (load_ptr h (p + offset_next)) ys e" by simp
  then show "load_ptr h (p + offset_next) = (if ys = [] then e else hd ys)"
    by (cases ys) auto
qed

lemma separated_Cons:
  "separated (p # xs) \<longleftrightarrow> (\<forall>q\<in>set xs. q = p \<or> q + 24 \<le> p \<or> p + 24 \<le> q) \<and> separated xs"
  by (auto simp: separated_def sizes)

lemma separated_append:
  "separated (xs @ ys) \<Longrightarrow> separated xs \<and> separated ys"
  by (auto simp: separated_def)

lemma separated_mid:
  "separated (xs @ p # ys) \<Longrightarrow> distinct (xs @ p # ys) \<Longrightarrow> q \<in> set xs \<union> set ys \<Longrightarrow>
   q + 24 \<le> p \<or> p + 24 \<le> q"
  by (auto simp: separated_def sizes)

lemma separated_pair:
  "separated zs \<Longrightarrow> x \<in> set zs \<Longrightarrow> y \<in> set zs \<Longrightarrow> x \<noteq> y \<Longrightarrow>
   x + 24 \<le> y \<or> y + 24 \<le> x"
  unfolding separated_def sizes by fastforce

lemma separated_remove: "separated (xs @ p # ys) \<Longrightarrow> separated (xs @ ys)"
  by (auto simp: separated_def)

text \<open>The heap and the list head after \<^verbatim>\<open>addNode\<close> and \<^verbatim>\<open>removeNode\<close>.\<close>

lemma addNode_heap:
  "heap (addNode s p) =
     (let h1 = store_ptr (store_ptr (heap s) (p + offset_next) (freeList s)) (p + offset_prev) NULL
      in if freeList s \<noteq> NULL then store_ptr h1 (freeList s + offset_prev) p else h1)"
  by (simp add: addNode_def set_next_def set_prev_def Let_def)

lemma addNode_globals:
  "freeList (addNode s p) = p" "mem (addNode s p) = mem s"
  "MEMORY_SIZE (addNode s p) = MEMORY_SIZE s"
  by (simp_all add: addNode_def set_next_def set_prev_def Let_def)

lemma removeNode_heap:
  "heap (removeNode s p) =
     (let prevNode = node_prev s p; nextNode = node_next s p;
          h1 = (if prevNode = NULL then heap s
                else store_ptr (heap s) (prevNode + offset_next) nextNode)
      in if nextNode \<noteq> NULL then store_ptr h1 (nextNode + offset_prev) prevNode else h1)"
  by (simp add: removeNode_def set_next_def set_prev_def Let_def)

lemma removeNode_globals:
  "freeList (removeNode s p) = (if node_prev s p = NULL then node_next s p else freeList s)"
  "mem (removeNode s p) = mem s" "MEMORY_SIZE (removeNode s p) = MEMORY_SIZE s"
  by (simp_all add: removeNode_def set_next_def set_prev_def Let_def)

lemma addNode_dlist:
  assumes dl: "dlist (heap s) (freeList s) fl"
    and sep: "\<forall>q\<in>set fl. q + 24 \<le> p \<or> p + 24 \<le> q"
    and rng: "\<forall>q\<in>set fl. 0 \<le> q \<and> q < 2 ^ 64"
    and sp: "separated fl" "distinct fl"
    and p: "0 < p" "p < 2 ^ 64"
  shows "dlist (heap (addNode s p)) (freeList (addNode s p)) (p # fl)"
proof (cases fl)
  case Nil
  with dl have f: "freeList s = NULL" by (simp add: dlist_def)
  have "load_ptr (store_ptr (store_ptr (heap s) (p + 8) NULL) (p + 16) NULL) (p + 8) = NULL"
    by (simp add: load_ptr_store_ptr_other load_ptr_store_ptr)
  with p Nil f show ?thesis
    by (simp add: dlist_def addNode_heap addNode_globals sizes load_ptr_store_ptr)
next
  case (Cons f rest)
  with dl have f: "freeList s = f" "f \<noteq> NULL"
    and fprev: "load_ptr (heap s) (f + 16) = NULL"
    and rest: "dseg (heap s) f (load_ptr (heap s) (f + 8)) rest NULL"
    by (simp_all add: dlist_def sizes)
  from sep Cons have fp: "f + 24 \<le> p \<or> p + 24 \<le> f" by simp
  from rng Cons have fr: "0 \<le> f" "f < 2 ^ 64" by simp_all
  let ?h1 = "store_ptr (heap s) (p + 8) f"
  let ?h2 = "store_ptr ?h1 (p + 16) NULL"
  let ?h3 = "store_ptr ?h2 (f + 16) p"
  have h: "heap (addNode s p) = ?h3" using f by (simp add: addNode_heap sizes)
  have 1: "load_ptr ?h3 (p + 16) = NULL"
    using fp by (auto simp: load_ptr_store_ptr_other load_ptr_store_ptr)
  have 2: "load_ptr ?h3 (p + 8) = f"
    using fp fr by (auto simp: load_ptr_store_ptr_other load_ptr_store_ptr)
  have 3: "load_ptr ?h3 (f + 16) = p"
    using p by (simp add: load_ptr_store_ptr)
  have 4: "load_ptr ?h3 (f + 8) = load_ptr (heap s) (f + 8)"
    using fp by (auto simp: load_ptr_store_ptr_other)
  have a: "\<forall>q\<in>set rest. q + 24 \<le> p \<or> p + 24 \<le> q" using sep Cons by simp
  have b: "\<forall>q\<in>set rest. q + 24 \<le> f \<or> f + 24 \<le> q"
    using sp Cons by (auto simp: separated_Cons)
  have 5: "dseg ?h3 f (load_ptr (heap s) (f + 8)) rest NULL"
  proof -
    have "dseg ?h3 f (load_ptr (heap s) (f + 8)) rest NULL
        = dseg ?h2 f (load_ptr (heap s) (f + 8)) rest NULL"
      using b by (intro dseg_store_ptr) auto
    also have "\<dots> = dseg ?h1 f (load_ptr (heap s) (f + 8)) rest NULL"
      using a by (intro dseg_store_ptr) auto
    also have "\<dots> = dseg (heap s) f (load_ptr (heap s) (f + 8)) rest NULL"
      using a by (intro dseg_store_ptr) auto
    finally show ?thesis using rest by simp
  qed
  show ?thesis
    using p f 1 2 3 4 5 Cons by (simp add: dlist_def h addNode_globals sizes)
qed

lemma removeNode_dlist:
  assumes dl: "dlist (heap s) (freeList s) (xs @ p # ys)"
    and sp: "separated (xs @ p # ys)" "distinct (xs @ p # ys)"
  shows "dlist (heap (removeNode s p)) (freeList (removeNode s p)) (xs @ ys)"
proof -
  let ?h = "heap s"
  from dl have d: "dseg ?h NULL (freeList s) (xs @ p # ys) NULL" by (simp add: dlist_def)
  note m = dseg_mid [OF d]
  let ?n = "node_next s p"
  have prevN: "node_prev s p = last (NULL # xs)" using m(1) by (simp add: node_prev_def)
  have nextN: "?n = (if ys = [] then NULL else hd ys)" using m(2) by (simp add: node_next_def)
  have nr: "0 \<le> ?n" "?n < 2 ^ 64"
    unfolding node_next_def by (rule load_ptr_lower, rule load_ptr_upper)
  have tl: "dseg ?h p ?n ys NULL" using m(5) by (simp add: node_next_def)
  show ?thesis
  proof (cases xs rule: rev_cases)
    case Nil
    then have pn: "node_prev s p = NULL" using prevN by simp
    show ?thesis
    proof (cases ys)
      case ys: Nil
      with Nil pn nextN show ?thesis
        by (simp add: dlist_def removeNode_heap removeNode_globals)
    next
      case ys: (Cons y ys')
      then have n: "?n = y" "y \<noteq> NULL" using nextN tl by simp_all
      from tl ys n have r: "dseg ?h y (load_ptr ?h (y + 8)) ys' NULL" by (simp add: sizes)
      have b: "\<forall>q\<in>set ys'. q + 24 \<le> y \<or> y + 24 \<le> q"
      proof
        fix x assume "x \<in> set ys'"
        with sp(2) ys show "x + 24 \<le> y \<or> y + 24 \<le> x"
          by (intro separated_pair [OF sp(1)]) auto
      qed
      let ?h1 = "store_ptr ?h (y + 16) NULL"
      have h: "heap (removeNode s p) = ?h1" using pn n by (simp add: removeNode_heap sizes)
      have 1: "load_ptr ?h1 (y + 16) = NULL" by (simp add: load_ptr_store_ptr)
      have 2: "load_ptr ?h1 (y + 8) = load_ptr ?h (y + 8)" by (simp add: load_ptr_store_ptr_other)
      have 3: "dseg ?h1 y (load_ptr ?h (y + 8)) ys' NULL = dseg ?h y (load_ptr ?h (y + 8)) ys' NULL"
        using b by (intro dseg_store_ptr) auto
      show ?thesis
        using Nil ys n pn r 1 2 3 by (simp add: dlist_def h removeNode_globals sizes)
    qed
  next
    case (snoc xs' q)
    then have pq: "node_prev s p = q" using prevN by simp
    from m(4) snoc have front: "dseg ?h NULL (freeList s) (xs' @ [q]) p" by simp
    then have fr: "dseg ?h NULL (freeList s) xs' q" and qn: "q \<noteq> NULL"
      and qprev: "load_ptr ?h (q + 16) = last (NULL # xs')"
      by (auto simp: dseg_append sizes)
    have qr: "0 \<le> q" "q < 2 ^ 64"
      using pq load_ptr_lower [of ?h "p + offset_prev"] load_ptr_upper [of ?h "p + offset_prev"]
      by (simp_all add: node_prev_def)
    have a: "\<forall>x\<in>set xs'. x + 24 \<le> q \<or> q + 24 \<le> x"
    proof
      fix x assume "x \<in> set xs'"
      with sp(2) snoc show "x + 24 \<le> q \<or> q + 24 \<le> x"
        by (intro separated_pair [OF sp(1)]) auto
    qed
    show ?thesis
    proof (cases ys)
      case ys: Nil
      then have n: "?n = NULL" using nextN by simp
      let ?h1 = "store_ptr ?h (q + 8) NULL"
      have h: "heap (removeNode s p) = ?h1" using pq qn n by (simp add: removeNode_heap sizes)
      have 1: "dseg ?h1 NULL (freeList s) xs' q = dseg ?h NULL (freeList s) xs' q"
        using a by (intro dseg_store_ptr) auto
      have 2: "load_ptr ?h1 (q + 16) = load_ptr ?h (q + 16)"
        by (simp add: load_ptr_store_ptr_other)
      have 3: "load_ptr ?h1 (q + 8) = NULL" by (simp add: load_ptr_store_ptr)
      show ?thesis
        using snoc ys pq qn fr qprev 1 2 3
        by (simp add: dlist_def h removeNode_globals dseg_append sizes)
    next
      case ys: (Cons y ys')
      then have n: "?n = y" "y \<noteq> NULL" using nextN tl by simp_all
      from tl ys n have r: "dseg ?h y (load_ptr ?h (y + 8)) ys' NULL" by (simp add: sizes)
      have yr: "0 \<le> y" "y < 2 ^ 64" using nr n by simp_all
      have b: "\<forall>x\<in>set ys'. x + 24 \<le> y \<or> y + 24 \<le> x"
      proof
        fix x assume "x \<in> set ys'"
        with sp(2) ys show "x + 24 \<le> y \<or> y + 24 \<le> x"
          by (intro separated_pair [OF sp(1)]) auto
      qed
      have c: "\<forall>x\<in>set ys'. x + 24 \<le> q \<or> q + 24 \<le> x"
      proof
        fix x assume "x \<in> set ys'"
        with sp(2) ys snoc show "x + 24 \<le> q \<or> q + 24 \<le> x"
          by (intro separated_pair [OF sp(1)]) auto
      qed
      have d: "\<forall>x\<in>set xs'. x + 24 \<le> y \<or> y + 24 \<le> x"
      proof
        fix x assume "x \<in> set xs'"
        with sp(2) ys snoc show "x + 24 \<le> y \<or> y + 24 \<le> x"
          by (intro separated_pair [OF sp(1)]) auto
      qed
      have qy: "q + 24 \<le> y \<or> y + 24 \<le> q"
        using sp(2) ys snoc by (intro separated_pair [OF sp(1)]) auto
      let ?h1 = "store_ptr ?h (q + 8) y"
      let ?h2 = "store_ptr ?h1 (y + 16) q"
      have h: "heap (removeNode s p) = ?h2" using pq qn n by (simp add: removeNode_heap sizes)
      have 1: "dseg ?h2 NULL (freeList s) xs' q"
      proof -
        have "dseg ?h2 NULL (freeList s) xs' q = dseg ?h1 NULL (freeList s) xs' q"
          using d by (intro dseg_store_ptr) auto
        also have "\<dots> = dseg ?h NULL (freeList s) xs' q"
          using a by (intro dseg_store_ptr) auto
        finally show ?thesis using fr by simp
      qed
      have 2: "load_ptr ?h2 (q + 16) = load_ptr ?h (q + 16)"
        using qy by (auto simp: load_ptr_store_ptr_other)
      have 3: "load_ptr ?h2 (q + 8) = y"
        using qy yr by (auto simp: load_ptr_store_ptr_other load_ptr_store_ptr)
      have 4: "load_ptr ?h2 (y + 16) = q"
        using qr by (simp add: load_ptr_store_ptr)
      have 5: "load_ptr ?h2 (y + 8) = load_ptr ?h (y + 8)"
        using qy by (auto simp: load_ptr_store_ptr_other)
      have 6: "dseg ?h2 y (load_ptr ?h (y + 8)) ys' NULL"
      proof -
        have "dseg ?h2 y (load_ptr ?h (y + 8)) ys' NULL = dseg ?h1 y (load_ptr ?h (y + 8)) ys' NULL"
          using b by (intro dseg_store_ptr) auto
        also have "\<dots> = dseg ?h y (load_ptr ?h (y + 8)) ys' NULL"
          using c by (intro dseg_store_ptr) auto
        finally show ?thesis using r by simp
      qed
      show ?thesis
        using snoc ys pq qn n qprev 1 2 3 4 5 6
        by (simp add: dlist_def h removeNode_globals dseg_append sizes)
    qed
  qed
qed

lemma ok_globals:
  assumes "arena_ok s ts fl"
  shows "0 < mem s" "mem s + MEMORY_SIZE s \<le> 2 ^ 64" "MEMORY_SIZE s < 2 ^ 31"
    "total ts = MEMORY_SIZE s" "tiles (heap s) (mem s) ts" "dlist (heap s) (freeList s) fl"
    "distinct fl" "set fl \<subseteq> set (free_addrs (mem s) ts)"
  using assms by (simp_all add: arena_ok_def)

text \<open>Where a block lies: inside the pool, with its tag in the range of an int.\<close>

lemma ok_block:
  assumes "arena_ok s (ts1 @ t # ts2) fl" and "p = mem s + total ts1"
  shows "mem s \<le> p" "p + block_size t \<le> mem s + MEMORY_SIZE s" "0 < p" "p + block_size t \<le> 2 ^ 64"
    "min_payload \<le> \<bar>t\<bar>" "\<bar>t\<bar> + 8 < 2 ^ 31"
    "load_int (heap s) p = t" "load_int (heap s) (p + sizeof_int + \<bar>t\<bar>) = t"
proof -
  note g = ok_globals [OF assms(1)]
  have tot: "total ts1 + block_size t + total ts2 = MEMORY_SIZE s"
    using g(4) by (simp add: total_append)
  show "mem s \<le> p" using assms(2) total_nonneg [of ts1] by simp
  show "p + block_size t \<le> mem s + MEMORY_SIZE s"
    using assms(2) tot total_nonneg [of ts2] by simp
  then show "p + block_size t \<le> 2 ^ 64" using g(2) by simp
  show "0 < p" using assms(2) g(1) total_nonneg [of ts1] by simp
  show "min_payload \<le> \<bar>t\<bar>" using g(5) by (rule tiles_min)
  show "\<bar>t\<bar> + 8 < 2 ^ 31"
    using tot g(3) total_nonneg [of ts1] total_nonneg [of ts2] by (simp add: sizes)
  show "load_int (heap s) p = t" using g(5) assms(2) by (simp add: tiles_header)
  show "load_int (heap s) (p + sizeof_int + \<bar>t\<bar>) = t" using g(5) assms(2) by (simp add: tiles_footer)
qed

text \<open>Where the nodes of the free list lie, relative to one block.\<close>

lemma ok_node_apart:
  assumes "arena_ok s (ts1 @ t # ts2) fl" and "p = mem s + total ts1" and "q \<in> set fl"
  shows "q + 28 \<le> p \<or> (q = p \<and> 0 < t) \<or> p + block_size t \<le> q"
proof -
  note g = ok_globals [OF assms(1)]
  from assms(3) g(8) have "q \<in> set (free_addrs (mem s) (ts1 @ t # ts2))" by auto
  from free_addrs_apart [OF this g(5)] assms(2) show ?thesis by simp
qed

lemma ok_node:
  assumes "arena_ok s ts fl" and "q \<in> set fl"
  shows "\<exists>ts1 t ts2. ts = ts1 @ t # ts2 \<and> q = mem s + total ts1 \<and> 0 < t"
  using assms ok_globals(8) [OF assms(1)] by (intro free_addrs_split) auto

lemma ok_node_range:
  assumes "arena_ok s ts fl" and "q \<in> set fl"
  shows "0 < q" "q + 28 \<le> 2 ^ 64" "mem s \<le> q" "q + 28 \<le> mem s + MEMORY_SIZE s"
proof -
  from ok_node [OF assms] obtain ts1 t ts2 where
    ts: "ts = ts1 @ t # ts2" "q = mem s + total ts1" "0 < t" by blast
  note b = ok_block [OF assms(1) [unfolded ts(1)] ts(2)]
  from b(5) ts(3) have "28 \<le> block_size t" by (simp add: sizes)
  with b show "0 < q" "q + 28 \<le> 2 ^ 64" "mem s \<le> q" "q + 28 \<le> mem s + MEMORY_SIZE s"
    by simp_all
qed

lemma ok_separated:
  assumes "arena_ok s ts fl"
  shows "separated fl"
  unfolding separated_def
proof (intro ballI)
  fix q r
  assume q: "q \<in> set fl" and r: "r \<in> set fl"
  from ok_node [OF assms r] obtain ts1 t ts2 where
    ts: "ts = ts1 @ t # ts2" "r = mem s + total ts1" "0 < t" by blast
  note b = ok_block [OF assms [unfolded ts(1)] ts(2)]
  from b(5) ts(3) have "28 \<le> block_size t" by (simp add: sizes)
  with ok_node_apart [OF assms [unfolded ts(1)] ts(2) q]
  show "q = r \<or> q + sizeof_node \<le> r \<or> r + sizeof_node \<le> q" by (auto simp: sizes)
qed

lemma ok_path: "arena_ok s ts fl \<Longrightarrow> path (heap s) (freeList s) fl NULL"
  by (simp add: arena_ok_def dlist_path)

text \<open>Stores into the link fields of a free block do not touch the tiling.\<close>

lemma tiles_store_link:
  assumes "tiles h a ts" and "q \<in> set (free_addrs a ts)" and "q + 8 \<le> b" and "b + 8 \<le> q + 24"
  shows "tiles (store_ptr h b v) a ts"
proof -
  from free_addrs_split [OF assms(2)] obtain ts1 t ts2 where
    ts: "ts = ts1 @ t # ts2" "q = a + total ts1" "0 < t" by blast
  from assms(1) ts have "min_payload \<le> \<bar>t\<bar>" by (simp add: tiles_append)
  with ts assms have "tiles (store_ptr h b v) a (ts1 @ t # ts2) = tiles h a (ts1 @ t # ts2)"
    by (intro tiles_agree_payload [of h _ b "b + 8"]) (auto simp: sizes intro: agree_store_ptr)
  with assms(1) ts show ?thesis by simp
qed

lemma tiles_store_next:
  "tiles h a ts \<Longrightarrow> q \<in> set (free_addrs a ts) \<Longrightarrow> tiles (store_ptr h (q + offset_next) v) a ts"
  by (rule tiles_store_link [of h a ts q]) (simp_all add: sizes)

lemma tiles_store_prev:
  "tiles h a ts \<Longrightarrow> q \<in> set (free_addrs a ts) \<Longrightarrow> tiles (store_ptr h (q + offset_prev) v) a ts"
  by (rule tiles_store_link [of h a ts q]) (simp_all add: sizes)

lemma addNode_tiles:
  assumes "tiles (heap s) a ts" and "p \<in> set (free_addrs a ts)"
    and "freeList s = NULL \<or> freeList s \<in> set (free_addrs a ts)"
  shows "tiles (heap (addNode s p)) a ts"
proof -
  let ?h1 = "store_ptr (store_ptr (heap s) (p + offset_next) (freeList s)) (p + offset_prev) NULL"
  have 1: "tiles ?h1 a ts" using assms(1,2) by (intro tiles_store_prev tiles_store_next)
  show ?thesis
  proof (cases "freeList s = NULL")
    case True
    with 1 show ?thesis by (simp add: addNode_heap)
  next
    case False
    from False assms(3) have "freeList s \<in> set (free_addrs a ts)" by simp
    from tiles_store_prev [OF 1 this]
    have "tiles (store_ptr ?h1 (freeList s + offset_prev) p) a ts" .
    with False show ?thesis by (simp add: addNode_heap)
  qed
qed

lemma removeNode_tiles:
  assumes "tiles (heap s) a ts"
    and "node_prev s p = NULL \<or> node_prev s p \<in> set (free_addrs a ts)"
    and "node_next s p = NULL \<or> node_next s p \<in> set (free_addrs a ts)"
  shows "tiles (heap (removeNode s p)) a ts"
proof -
  let ?h1 = "if node_prev s p = NULL then heap s
             else store_ptr (heap s) (node_prev s p + offset_next) (node_next s p)"
  have 1: "tiles ?h1 a ts" using assms(1,2) by (auto intro: tiles_store_next)
  show ?thesis
  proof (cases "node_next s p = NULL")
    case True
    from True 1 show ?thesis by (simp add: removeNode_heap Let_def split: if_splits)
  next
    case False
    from False assms(3) have "node_next s p \<in> set (free_addrs a ts)" by simp
    from tiles_store_prev [OF 1 this]
    have "tiles (store_ptr ?h1 (node_next s p + offset_prev) (node_prev s p)) a ts" .
    with False show ?thesis by (simp add: removeNode_heap Let_def)
  qed
qed

lemma addNode_ok:
  assumes "arena_ok s ts fl" and "p \<in> set (free_addrs (mem s) ts)" and "p \<notin> set fl"
  shows "arena_ok (addNode s p) ts (p # fl)"
proof -
  note g = ok_globals [OF assms(1)]
  from free_addrs_split [OF assms(2)] obtain ts1 t ts2 where
    ts: "ts = ts1 @ t # ts2" "p = mem s + total ts1" "0 < t" by blast
  note b = ok_block [OF assms(1) [unfolded ts(1)] ts(2)]
  have p28: "p + 28 \<le> 2 ^ 64" using b ts(3) by (simp add: sizes)
  have sep: "\<forall>q\<in>set fl. q + 24 \<le> p \<or> p + 24 \<le> q"
  proof
    fix q assume q: "q \<in> set fl"
    with assms(3) have "q \<noteq> p" by auto
    with ok_node_apart [OF assms(1) [unfolded ts(1)] ts(2) q] b(5) ts(3)
    show "q + 24 \<le> p \<or> p + 24 \<le> q" by (auto simp: sizes)
  qed
  have rng: "\<forall>q\<in>set fl. 0 \<le> q \<and> q < 2 ^ 64"
    using ok_node_range [OF assms(1)] by fastforce
  have dl: "dlist (heap (addNode s p)) (freeList (addNode s p)) (p # fl)"
    using g(6) sep rng ok_separated [OF assms(1)] g(7) b(3) p28 by (intro addNode_dlist) auto
  have fl: "freeList s = NULL \<or> freeList s \<in> set (free_addrs (mem s) ts)"
    using g(6) g(8) by (cases fl) (auto simp: dlist_def)
  have ti: "tiles (heap (addNode s p)) (mem s) ts"
    using g(5) assms(2) fl by (rule addNode_tiles)
  show ?thesis
    using g dl ti assms(2,3) by (simp add: arena_ok_def addNode_globals)
qed

lemma removeNode_ok:
  assumes "arena_ok s ts fl" and "p \<in> set fl"
  shows "arena_ok (removeNode s p) ts (remove1 p fl)"
proof -
  note g = ok_globals [OF assms(1)]
  from assms(2) obtain xs ys where fl: "fl = xs @ p # ys" by (auto simp: in_set_conv_decomp)
  with g(7) have r1: "remove1 p (xs @ p # ys) = xs @ ys" by (simp add: remove1_append)
  have d: "dseg (heap s) NULL (freeList s) (xs @ p # ys) NULL" using g(6) fl by (simp add: dlist_def)
  note m = dseg_mid [OF d]
  have pv: "node_prev s p = NULL \<or> node_prev s p \<in> set (free_addrs (mem s) ts)"
    using m(1) g(8) fl by (cases xs rule: rev_cases) (auto simp: node_prev_def)
  have nx: "node_next s p = NULL \<or> node_next s p \<in> set (free_addrs (mem s) ts)"
    using m(2) g(8) fl by (cases ys) (auto simp: node_next_def)
  have ti: "tiles (heap (removeNode s p)) (mem s) ts" using g(5) pv nx by (rule removeNode_tiles)
  have dl: "dlist (heap (removeNode s p)) (freeList (removeNode s p)) (xs @ ys)"
    using g(6) g(7) ok_separated [OF assms(1)] unfolding fl by (intro removeNode_dlist)
  show ?thesis
    using g dl ti fl by (auto simp: arena_ok_def removeNode_globals r1)
qed

text \<open>
  Replacing a run of blocks by another run that covers the same bytes, when the heap
  changed only inside these bytes.
\<close>

lemma retile:
  assumes w: "arena_ok s (ts1 @ us @ ts2) fl"
    and glob: "mem s' = mem s" "MEMORY_SIZE s' = MEMORY_SIZE s"
    and p: "p = mem s + total ts1"
    and agree: "agree_outside (heap s) (heap s') p (p + total us)"
    and new: "tiles (heap s') p vs" "total vs = total us"
    and dl: "dlist (heap s') (freeList s') fl'" "distinct fl'"
      "set fl' \<subseteq> set (free_addrs (mem s) (ts1 @ vs @ ts2))"
  shows "arena_ok s' (ts1 @ vs @ ts2) fl'"
proof -
  note g = ok_globals [OF w]
  have 1: "tiles (heap s') (mem s) ts1 = tiles (heap s) (mem s) ts1"
    using agree p by (intro tiles_agree_below [of _ _ p "p + total us"]) auto
  have 2: "tiles (heap s') (p + total us) ts2 = tiles (heap s) (p + total us) ts2"
    using agree by (intro tiles_agree_above [of _ _ p "p + total us"]) auto
  have "tiles (heap s') (mem s) (ts1 @ vs @ ts2)"
    using g(5) 1 2 new p by (simp add: tiles_append add.assoc)
  then show ?thesis
    using g glob new dl by (simp add: arena_ok_def total_append)
qed

lemma splitBlock_result:
  "fst (splitBlock s p sz) =
     s\<lparr>heap := store_int (store_int (store_int (store_int (heap s) p sz) (p + 4 + sz) sz)
                 (p + 4 + sz + 4) (to_int (node_space s p - sz - 8)))
                 (p + 4 + node_space s p) (to_int (node_space s p - sz - 8))\<rparr>"
  "snd (splitBlock s p sz) = p + 4 + sz + 4"
  by (simp_all add: splitBlock_def Let_def set_space_def write_int_def sizes)

lemma splitBlock_ok:
  assumes w: "arena_ok s (ts1 @ t # ts2) fl" and p: "p = mem s + total ts1"
    and t: "0 < t" and sz: "min_payload \<le> sz" "sz + 28 \<le> t"
  shows "arena_ok (fst (splitBlock s p sz)) (ts1 @ sz # (t - sz - 8) # ts2) fl"
proof -
  note g = ok_globals [OF w]
  note b = ok_block [OF w p]
  define n where "n = t - sz - 8"
  define f1 where "f1 = p + 4 + sz"
  define h2 where "h2 = p + 4 + sz + 4"
  define f2 where "f2 = p + 4 + t"
  have ar: "20 \<le> sz" "20 \<le> n" "p + 24 \<le> f1" "f1 + 4 \<le> h2" "h2 + 24 \<le> f2"
    "f2 + 4 \<le> p + block_size t" "0 < sz" "0 < n"
    using sz t by (simp_all add: n_def f1_def h2_def f2_def sizes)
  have sp: "node_space s p = t" using b(7) by (simp add: node_space_def)
  have n: "to_int n = n" using b(6) t sz by (intro to_int_id) (auto simp: n_def sizes)
  have s: "to_int sz = sz" using b(6) t sz by (intro to_int_id) (auto simp: sizes)
  let ?h1 = "store_int (heap s) p sz"
  let ?h2 = "store_int ?h1 f1 sz"
  let ?h3 = "store_int ?h2 h2 n"
  let ?h4 = "store_int ?h3 f2 n"
  let ?s' = "fst (splitBlock s p sz)"
  have h: "heap ?s' = ?h4" by (simp add: splitBlock_result sp n_def f1_def h2_def f2_def n [unfolded n_def])
  have gl: "mem ?s' = mem s" "MEMORY_SIZE ?s' = MEMORY_SIZE s" "freeList ?s' = freeList s"
    by (simp_all add: splitBlock_result)
  have ag: "agree_outside (heap s) ?h4 p (p + block_size t)"
    using ar by (intro agree_store_int_step agree_outside_refl) auto
  have l1: "load_int ?h4 p = sz"
    using ar s by (simp add: load_int_store_int_other load_int_store_int)
  have l2: "load_int ?h4 f1 = sz"
    using ar s by (simp add: load_int_store_int_other load_int_store_int)
  have l3: "load_int ?h4 h2 = n"
    using ar n by (simp add: load_int_store_int_other load_int_store_int)
  have l4: "load_int ?h4 f2 = n"
    using ar n by (simp add: load_int_store_int)
  have a: "p + sizeof_int + \<bar>sz\<bar> = f1" "p + block_size sz = h2"
    "h2 + sizeof_int + \<bar>n\<bar> = f2" "h2 + block_size n = p + block_size t"
    using sz t by (simp_all add: f1_def h2_def f2_def n_def sizes)
  have ti: "tiles ?h4 p [sz, n]"
    unfolding tiles.simps a using l1 l2 l3 l4 ar by (simp add: sizes)
  have tot: "total [sz, n] = total [t]" using sz t by (simp add: sizes n_def)
  have geo: "\<forall>q\<in>set fl. q + 28 \<le> p \<or> q = p \<or> p + block_size t \<le> q"
    using ok_node_apart [OF w p] by blast
  have dl: "dseg ?h4 NULL (freeList s) fl NULL"
  proof -
    have "dseg ?h4 NULL (freeList s) fl NULL = dseg ?h3 NULL (freeList s) fl NULL"
      using geo ar by (intro dseg_store_int) auto
    also have "\<dots> = dseg ?h2 NULL (freeList s) fl NULL"
      using geo ar by (intro dseg_store_int) auto
    also have "\<dots> = dseg ?h1 NULL (freeList s) fl NULL"
      using geo ar by (intro dseg_store_int) auto
    also have "\<dots> = dseg (heap s) NULL (freeList s) fl NULL"
      using geo ar by (intro dseg_store_int) auto
    finally show ?thesis using g(6) by (simp add: dlist_def)
  qed
  have fa_old: "free_addrs (mem s) (ts1 @ t # ts2)
      = free_addrs (mem s) ts1 @ [p] @ free_addrs (p + block_size t) ts2"
    using t by (simp add: free_addrs_append free_addrs_Cons p [symmetric])
  have fa_new: "free_addrs (mem s) (ts1 @ [sz, n] @ ts2)
      = free_addrs (mem s) ts1 @ [p, h2] @ free_addrs (p + block_size t) ts2"
    using ar(7,8) by (simp add: free_addrs_append free_addrs_Cons p [symmetric] a)
  have sub: "set fl \<subseteq> set (free_addrs (mem s) (ts1 @ [sz, n] @ ts2))"
    using g(8) unfolding fa_old fa_new by auto
  have w': "arena_ok s (ts1 @ [t] @ ts2) fl" using w by simp
  have "arena_ok ?s' (ts1 @ [sz, n] @ ts2) fl"
    using w' gl(1,2) p
  proof (rule retile)
    show "agree_outside (heap s) (heap ?s') p (p + total [t])" using ag h by simp
    show "tiles (heap ?s') p [sz, n]" using ti h by simp
    show "total [sz, n] = total [t]" by (rule tot)
    show "dlist (heap ?s') (freeList ?s') fl" using dl h gl by (simp add: dlist_def)
    show "distinct fl" by (rule g(7))
    show "set fl \<subseteq> set (free_addrs (mem s) (ts1 @ [sz, n] @ ts2))" by (rule sub)
  qed
  then show ?thesis by (simp add: n_def)
qed
lemma retile_tiles:
  assumes "tiles h a (ts1 @ us @ ts2)" and "p = a + total ts1"
    and "agree_outside h h' p (p + total us)" and "tiles h' p vs" and "total vs = total us"
  shows "tiles h' a (ts1 @ vs @ ts2)"
proof -
  have 1: "tiles h' a ts1 = tiles h a ts1"
    using assms(2,3) by (intro tiles_agree_below [of _ _ p "p + total us"]) auto
  have 2: "tiles h' (p + total us) ts2 = tiles h (p + total us) ts2"
    using assms(3) by (intro tiles_agree_above [of _ _ p "p + total us"]) auto
  show ?thesis using assms 1 2 by (simp add: tiles_append add.assoc)
qed

text \<open>Writing a new tag of the same magnitude into the header and the footer of a block.\<close>

lemma mark_ok:
  assumes w: "arena_ok s (ts1 @ t # ts2) fl" and p: "p = mem s + total ts1"
    and v: "\<bar>v\<bar> = \<bar>t\<bar>" "p \<notin> set fl \<or> 0 < v"
  shows "arena_ok (write_int (set_space s p v) (p + sizeof_int + \<bar>t\<bar>) v) (ts1 @ v # ts2) fl"
proof -
  note g = ok_globals [OF w]
  note b = ok_block [OF w p]
  define f where "f = p + sizeof_int + \<bar>t\<bar>"
  have ar: "p + 24 \<le> f" "f + 4 \<le> p + block_size t" using b(5) by (simp_all add: f_def sizes)
  have tv: "to_int v = v" using b(6) v(1) by (intro to_int_id) auto
  let ?h1 = "store_int (heap s) p v"
  let ?h2 = "store_int ?h1 f v"
  let ?s' = "write_int (set_space s p v) f v"
  have h: "heap ?s' = ?h2" by (simp add: write_int_def set_space_def)
  have gl: "mem ?s' = mem s" "MEMORY_SIZE ?s' = MEMORY_SIZE s" "freeList ?s' = freeList s"
    by (simp_all add: write_int_def set_space_def)
  have ag: "agree_outside (heap s) ?h2 p (p + total [t])"
    using ar by (intro agree_store_int_step agree_outside_refl) auto
  have l1: "load_int ?h2 p = v" using ar tv by (simp add: load_int_store_int_other load_int_store_int)
  have l2: "load_int ?h2 f = v" using tv by (simp add: load_int_store_int)
  have a: "p + sizeof_int + \<bar>v\<bar> = f" using v(1) by (simp add: f_def)
  have ti: "tiles ?h2 p [v]"
    unfolding tiles.simps a using l1 l2 b(5) v(1) by simp
  have tot: "total [v] = total [t]" using v(1) by (simp add: sizes)
  have geo: "\<forall>q\<in>set fl. q + 28 \<le> p \<or> (q = p \<and> 0 < t) \<or> p + block_size t \<le> q"
    using ok_node_apart [OF w p] by blast
  have dl: "dseg ?h2 NULL (freeList s) fl NULL"
  proof -
    have "dseg ?h2 NULL (freeList s) fl NULL = dseg ?h1 NULL (freeList s) fl NULL"
      using geo ar by (intro dseg_store_int) auto
    also have "\<dots> = dseg (heap s) NULL (freeList s) fl NULL"
      using geo ar by (intro dseg_store_int) auto
    finally show ?thesis using g(6) by (simp add: dlist_def)
  qed
  have bs: "block_size v = block_size t" using v(1) by (simp add: sizes)
  have fa_old: "free_addrs (mem s) (ts1 @ t # ts2)
      = free_addrs (mem s) ts1 @ (if 0 < t then [p] else []) @ free_addrs (p + block_size t) ts2"
    by (simp add: free_addrs_append free_addrs_Cons p [symmetric])
  have fa_new: "free_addrs (mem s) (ts1 @ [v] @ ts2)
      = free_addrs (mem s) ts1 @ (if 0 < v then [p] else []) @ free_addrs (p + block_size t) ts2"
    by (simp add: free_addrs_append free_addrs_Cons p [symmetric] bs)
  have sub: "set fl \<subseteq> set (free_addrs (mem s) (ts1 @ [v] @ ts2))"
    using g(8) v(2) unfolding fa_old fa_new by (auto split: if_splits)
  have w': "arena_ok s (ts1 @ [t] @ ts2) fl" using w by simp
  have "arena_ok ?s' (ts1 @ [v] @ ts2) fl"
    using w' gl(1,2) p
  proof (rule retile)
    show "agree_outside (heap s) (heap ?s') p (p + total [t])" using ag h by simp
    show "tiles (heap ?s') p [v]" using ti h by simp
    show "total [v] = total [t]" by (rule tot)
    show "dlist (heap ?s') (freeList ?s') fl" using dl h gl by (simp add: dlist_def)
    show "distinct fl" by (rule g(7))
    show "set fl \<subseteq> set (free_addrs (mem s) (ts1 @ [v] @ ts2))" by (rule sub)
  qed
  then show ?thesis by (simp add: f_def)
qed

text \<open>Writes into the payload of an allocated block.\<close>

lemma payload_ok:
  assumes w: "arena_ok s (ts1 @ t # ts2) fl" and p: "p = mem s + total ts1" and t: "t < 0"
    and ag: "agree_outside (heap s) h' (p + sizeof_int) (p + sizeof_int + \<bar>t\<bar>)"
  shows "arena_ok (s\<lparr>heap := h'\<rparr>) (ts1 @ t # ts2) fl"
proof -
  note g = ok_globals [OF w]
  have ti: "tiles h' (mem s) (ts1 @ t # ts2) = tiles (heap s) (mem s) (ts1 @ t # ts2)"
    using ag p by (intro tiles_agree_payload [OF ag]) auto
  have geo: "\<forall>q\<in>set fl. q + 28 \<le> p \<or> p + block_size t \<le> q"
    using ok_node_apart [OF w p] t by fastforce
  have "dseg h' NULL (freeList s) fl NULL = dseg (heap s) NULL (freeList s) fl NULL"
    using geo by (intro dseg_agree [OF ag]) (auto simp: sizes)
  with g ti show ?thesis by (simp add: arena_ok_def dlist_def)
qed

lemma coalesce_ok:
  assumes w: "arena_ok s (ts1 @ ta # tb # ts2) fl" and A: "A = mem s + total ts1"
    and B: "B = A + block_size ta" and pos: "0 < ta" "0 < tb" and Bfl: "B \<in> set fl"
  shows "arena_ok (coalesce s A B) (ts1 @ (ta + tb + 8) # ts2) (remove1 B fl)"
proof -
  note g = ok_globals [OF w]
  note bA = ok_block [OF w A]
  have w2: "arena_ok s ((ts1 @ [ta]) @ tb # ts2) fl" using w by simp
  have B2: "B = mem s + total (ts1 @ [ta])" using A B by (simp add: total_append)
  note bB = ok_block [OF w2 B2]
  define n where "n = ta + tb + 2 * sizeof_int"
  define f where "f = A + n + sizeof_int"
  have tot: "total ts1 + (block_size ta + block_size tb) + total ts2 = MEMORY_SIZE s"
    using g(4) by (simp add: total_append)
  have nr: "to_int n = n"
    using tot g(3) pos total_nonneg [of ts1] total_nonneg [of ts2]
    by (intro to_int_id) (auto simp: n_def sizes)
  have ar: "A + 24 \<le> B" "B + 24 \<le> f" "f + 4 \<le> A + block_size ta + block_size tb"
    "0 < n" "20 \<le> n"
    using bA(5) bB(5) pos by (simp_all add: B f_def n_def sizes)
  have spA: "node_space s A = ta" using bA(7) by (simp add: node_space_def)
  have spB: "node_space s B = tb" using bB(7) by (simp add: node_space_def)
  let ?h1 = "store_int (heap s) A n"
  let ?h2 = "store_int ?h1 f n"
  let ?s2 = "s\<lparr>heap := ?h2\<rparr>"
  have co: "coalesce s A B = removeNode ?s2 B"
    by (simp add: coalesce_def Let_def spA spB set_space_def write_int_def n_def [symmetric]
        nr f_def [symmetric])
  have ag: "agree_outside (heap s) ?h2 A (A + total [ta, tb])"
    using ar by (intro agree_store_int_step agree_outside_refl) auto
  have l1: "load_int ?h2 A = n" using ar nr by (simp add: load_int_store_int_other load_int_store_int)
  have l2: "load_int ?h2 f = n" using nr by (simp add: load_int_store_int)
  have a: "A + sizeof_int + \<bar>n\<bar> = f" "block_size n = block_size ta + block_size tb"
    using ar pos by (simp_all add: f_def n_def sizes)
  have ti1: "tiles ?h2 A [n]"
    unfolding tiles.simps a using l1 l2 ar by (simp add: sizes)
  have ti: "tiles ?h2 (mem s) (ts1 @ [n] @ ts2)"
  proof (rule retile_tiles [where us = "[ta, tb]"])
    show "tiles (heap s) (mem s) (ts1 @ [ta, tb] @ ts2)" using g(5) by simp
    show "A = mem s + total ts1" by (rule A)
    show "agree_outside (heap s) ?h2 A (A + total [ta, tb])" by (rule ag)
    show "tiles ?h2 A [n]" by (rule ti1)
    show "total [n] = total [ta, tb]" using a(2) by simp
  qed
  have fB: "f + 4 = B + block_size tb" using pos by (simp add: f_def n_def B sizes)
  have geo: "\<forall>q\<in>set fl. q + 28 \<le> A \<or> q = A \<or> q = B \<or> f + 4 \<le> q"
  proof
    fix q assume q: "q \<in> set fl"
    from ok_node_apart [OF w A q] ok_node_apart [OF w2 B2 q] B fB
    show "q + 28 \<le> A \<or> q = A \<or> q = B \<or> f + 4 \<le> q" by auto
  qed
  have dl: "dlist ?h2 (freeList s) fl"
  proof -
    have "dseg ?h2 NULL (freeList s) fl NULL = dseg ?h1 NULL (freeList s) fl NULL"
      using geo ar(1,2) by (intro dseg_store_int) auto
    also have "\<dots> = dseg (heap s) NULL (freeList s) fl NULL"
      using geo ar(1,2) by (intro dseg_store_int) auto
    finally show ?thesis using g(6) by (simp add: dlist_def)
  qed
  have fa_old: "free_addrs (mem s) (ts1 @ ta # tb # ts2)
      = free_addrs (mem s) ts1 @ [A, B] @ free_addrs (B + block_size tb) ts2"
    using pos by (simp add: free_addrs_append free_addrs_Cons A [symmetric] B [symmetric])
  have AB: "A + block_size n = B + block_size tb" using a(2) B by simp
  have fa_new: "free_addrs (mem s) (ts1 @ [n] @ ts2)
      = free_addrs (mem s) ts1 @ [A] @ free_addrs (B + block_size tb) ts2"
    using ar(4) by (simp add: free_addrs_append free_addrs_Cons A [symmetric] AB)
  from Bfl obtain xs ys where fl: "fl = xs @ B # ys" by (auto simp: in_set_conv_decomp)
  with g(7) have r1: "remove1 B (xs @ B # ys) = xs @ ys" by (simp add: remove1_append)
  have rest: "set (xs @ ys) \<subseteq> set (free_addrs (mem s) (ts1 @ [n] @ ts2))"
    using g(8) g(7) unfolding fa_old fa_new fl by auto
  have d: "dseg ?h2 NULL (freeList s) (xs @ B # ys) NULL" using dl fl by (simp add: dlist_def)
  note m = dseg_mid [OF d]
  have pv: "node_prev ?s2 B = NULL \<or> node_prev ?s2 B \<in> set (free_addrs (mem s) (ts1 @ [n] @ ts2))"
    using m(1) rest by (cases xs rule: rev_cases) (auto simp: node_prev_def)
  have nx: "node_next ?s2 B = NULL \<or> node_next ?s2 B \<in> set (free_addrs (mem s) (ts1 @ [n] @ ts2))"
    using m(2) rest by (cases ys) (auto simp: node_next_def)
  have ti': "tiles (heap (removeNode ?s2 B)) (mem s) (ts1 @ [n] @ ts2)"
    using ti pv nx by (intro removeNode_tiles) simp_all
  have dl': "dlist (heap (removeNode ?s2 B)) (freeList (removeNode ?s2 B)) (xs @ ys)"
    using dl g(7) ok_separated [OF w] unfolding fl by (intro removeNode_dlist) simp_all
  have "arena_ok (removeNode ?s2 B) (ts1 @ [n] @ ts2) (xs @ ys)"
    using g ti' dl' rest fl a(2) by (simp add: arena_ok_def removeNode_globals total_append)
  then show ?thesis by (simp add: co fl r1 n_def sizes)
qed
lemma block_rewrite_ok:
  assumes w: "arena_ok s (ts1 @ t # ts2) fl" and p: "p = mem s + total ts1"
    and v: "\<bar>v\<bar> = \<bar>t\<bar>" and pfl: "p \<notin> set fl"
    and ag: "agree_outside (heap s) h' p (p + block_size t)"
    and tags: "load_int h' p = v" "load_int h' (p + sizeof_int + \<bar>t\<bar>) = v"
  shows "arena_ok (s\<lparr>heap := h'\<rparr>) (ts1 @ v # ts2) fl"
proof -
  note g = ok_globals [OF w]
  note b = ok_block [OF w p]
  have ti: "tiles h' p [v]" using tags b(5) v by simp
  have geo: "\<forall>q\<in>set fl. q + 28 \<le> p \<or> p + block_size t \<le> q"
    using ok_node_apart [OF w p] pfl by fastforce
  have dl: "dseg h' NULL (freeList s) fl NULL = dseg (heap s) NULL (freeList s) fl NULL"
    using geo by (intro dseg_agree [OF ag]) auto
  have bs: "block_size v = block_size t" using v by (simp add: sizes)
  have fa_old: "free_addrs (mem s) (ts1 @ t # ts2)
      = free_addrs (mem s) ts1 @ (if 0 < t then [p] else []) @ free_addrs (p + block_size t) ts2"
    by (simp add: free_addrs_append free_addrs_Cons p [symmetric])
  have fa_new: "free_addrs (mem s) (ts1 @ [v] @ ts2)
      = free_addrs (mem s) ts1 @ (if 0 < v then [p] else []) @ free_addrs (p + block_size t) ts2"
    by (simp add: free_addrs_append free_addrs_Cons p [symmetric] bs)
  have sub: "set fl \<subseteq> set (free_addrs (mem s) (ts1 @ [v] @ ts2))"
    using g(8) pfl unfolding fa_old fa_new by (auto split: if_splits)
  have w': "arena_ok s (ts1 @ [t] @ ts2) fl" using w by simp
  have "arena_ok (s\<lparr>heap := h'\<rparr>) (ts1 @ [v] @ ts2) fl"
    using w' _ _ p
  proof (rule retile)
    show "agree_outside (heap s) (heap (s\<lparr>heap := h'\<rparr>)) p (p + total [t])" using ag by simp
    show "tiles (heap (s\<lparr>heap := h'\<rparr>)) p [v]" using ti by simp
    show "total [v] = total [t]" using bs by simp
    show "dlist (heap (s\<lparr>heap := h'\<rparr>)) (freeList (s\<lparr>heap := h'\<rparr>)) fl"
      using dl g(6) by (simp add: dlist_def)
    show "distinct fl" by (rule g(7))
    show "set fl \<subseteq> set (free_addrs (mem s) (ts1 @ [v] @ ts2))" by (rule sub)
  qed simp_all
  then show ?thesis by simp
qed

lemma naf_Cons:
  "no_adjacent_free (t # ts) \<longleftrightarrow> (ts = [] \<or> \<not> (0 < t \<and> 0 < hd ts)) \<and> no_adjacent_free ts"
  by (cases ts) auto

lemma naf_append:
  "no_adjacent_free (xs @ ys) \<longleftrightarrow>
     no_adjacent_free xs \<and> no_adjacent_free ys \<and>
     (xs = [] \<or> ys = [] \<or> \<not> (0 < last xs \<and> 0 < hd ys))"
proof (induction xs)
  case Nil
  show ?case by simp
next
  case (Cons x xs)
  show ?case
  proof (cases xs)
    case Nil
    then show ?thesis by (cases ys) (auto simp: naf_Cons)
  next
    case (Cons x' xs')
    with Cons.IH show ?thesis by (auto simp: naf_Cons)
  qed
qed

text \<open>The conversions in \<^verbatim>\<open>myalloc\<close> for a request that is not negative.\<close>

lemma MAX_request:
  "0 \<le> sz \<Longrightarrow> sz < 2 ^ 31 \<Longrightarrow>
   to_int (MAX_macro (to_size_t sz) (sizeof_node - sizeof_int)) = max sz min_payload"
  by (auto simp: MAX_macro_def to_size_t_def to_int_def sizes)

lemma split_test:
  "0 \<le> e \<Longrightarrow> e < 2 ^ 31 \<Longrightarrow> 0 \<le> t \<Longrightarrow> t < 2 ^ 31 \<Longrightarrow>
   (to_size_t t > to_size_t (to_size_t e + sizeof_int + sizeof_node)) = (t > e + 28)"
  by (simp add: to_size_t_def sizes add.commute)

lemma ok_free_block_in_list:
  assumes "heap_inv s (ts1 @ t # ts2) fl" and "p = mem s + total ts1" and "0 < t"
  shows "p \<in> set fl"
proof -
  have "p \<in> set (free_addrs (mem s) (ts1 @ t # ts2))"
    using assms(2,3) by (simp add: free_addrs_append free_addrs_Cons)
  with assms(1) show ?thesis by (auto simp: heap_inv_def)
qed

text \<open>The addresses of the free blocks before and behind a block.\<close>

lemma free_addrs_before:
  "q \<in> set (free_addrs a ts) \<Longrightarrow> q + 8 \<le> a + total ts"
proof -
  assume "q \<in> set (free_addrs a ts)"
  then obtain u where "(q, u) \<in> set (blocks a ts)" by (auto simp: free_addrs_blocks)
  from blocks_bounds [OF this] block_size_pos [of u] show ?thesis by simp
qed

lemma free_addrs_behind: "q \<in> set (free_addrs a ts) \<Longrightarrow> a \<le> q"
proof -
  assume "q \<in> set (free_addrs a ts)"
  then obtain u where "(q, u) \<in> set (blocks a ts)" by (auto simp: free_addrs_blocks)
  from blocks_bounds [OF this] show ?thesis by simp
qed

lemma myalloc_block_ok:
  assumes w: "arena_ok s (ts1 @ t # ts2) fl" and p: "p = mem s + total ts1"
    and t: "0 < t" and pfl: "p \<in> set fl" and sz: "0 \<le> sz" "sz \<le> t"
  shows "arena_ok (fst (myalloc_block s p sz)) (ts1 @ alloc_tags t sz @ ts2) (alloc_list p t sz fl)"
proof -
  note g = ok_globals [OF w]
  note b = ok_block [OF w p]
  define e where "e = max sz min_payload"
  have tr: "t < 2 ^ 31" "0 \<le> t" using b(6) t by simp_all
  have er: "0 \<le> e" "min_payload \<le> e" "sz \<le> e" by (simp_all add: e_def sizes)
  have szr: "sz < 2 ^ 31" using sz tr by simp
  have sp: "node_space s p = t" using b(7) by (simp add: node_space_def)
  have mx: "to_int (MAX_macro (to_size_t sz) (sizeof_node - sizeof_int)) = e"
    using MAX_request [OF sz(1) szr] by (simp add: e_def)
  show ?thesis
  proof (cases "t > e + 28")
    case True
    then have e31: "e < 2 ^ 31" using tr by simp
    have test: "to_size_t t > to_size_t (to_size_t e + sizeof_int + sizeof_node)"
      using split_test [OF er(1) e31 tr(2) tr(1)] True by simp
    define n where "n = t - e - 8"
    define q where "q = p + 4 + e + 4"
    let ?sa = "fst (splitBlock s p e)"
    have wa: "arena_ok ?sa (ts1 @ e # n # ts2) fl"
      unfolding n_def using w p t er(2) True by (intro splitBlock_ok) auto
    have qa: "snd (splitBlock s p e) = q" by (simp add: splitBlock_result q_def)
    have ga: "mem ?sa = mem s" by (simp add: splitBlock_result)
    have nq: "0 < n" "p + block_size e = q" "q + block_size n = p + block_size t" "p < q"
      "q + 8 \<le> p + block_size t"
      using True er t by (simp_all add: n_def q_def sizes)
    have fa: "free_addrs (mem s) (ts1 @ e # n # ts2)
        = free_addrs (mem s) ts1 @ (if 0 < e then [p] else []) @ [q] @ free_addrs (p + block_size t) ts2"
      using nq by (simp add: free_addrs_append free_addrs_Cons p [symmetric])
    have qfree: "q \<in> set (free_addrs (mem ?sa) (ts1 @ e # n # ts2))" using fa ga by simp
    have qfl: "q \<notin> set fl"
    proof
      assume "q \<in> set fl"
      from ok_node_apart [OF w p this] nq show False by auto
    qed
    let ?sb = "addNode ?sa q"
    have wb: "arena_ok ?sb (ts1 @ e # n # ts2) (q # fl)"
      using wa qfree qfl by (rule addNode_ok)
    let ?sc = "removeNode ?sb p"
    have wc: "arena_ok ?sc (ts1 @ e # n # ts2) (q # remove1 p fl)"
      using removeNode_ok [OF wb, of p] pfl nq(4) by simp
    have gc: "mem ?sc = mem s" by (simp add: removeNode_globals addNode_globals ga)
    have pc: "p = mem ?sc + total ts1" using p gc by simp
    note bc = ok_block [OF wc pc]
    have spc: "node_space ?sc p = e" using bc(7) by (simp add: node_space_def)
    have ae: "\<bar>e\<bar> = e" "to_int (- e) = - e" using er(1) e31 by (simp_all add: to_int_def)
    have pnot: "p \<notin> set (q # remove1 p fl)" using g(7) nq(4) by simp
    have wd: "arena_ok (write_int (set_space ?sc p (- e)) (p + sizeof_int + \<bar>e\<bar>) (- e))
                (ts1 @ (- e) # n # ts2) (q # remove1 p fl)"
      using wc pc by (rule mark_ok) (use pnot in simp_all)
    have res: "fst (myalloc_block s p sz)
        = write_int (set_space ?sc p (- e)) (p + sizeof_int + \<bar>e\<bar>) (- e)"
      unfolding myalloc_block_def Let_def mx sp
      using test by (simp add: qa split_def spc ae sizes)
    have at: "alloc_tags t sz = [- e, n]"
      unfolding alloc_tags_def e_def [symmetric] Let_def using True by (simp add: n_def sizes)
    have al: "alloc_list p t sz fl = q # remove1 p fl"
      unfolding alloc_list_def e_def [symmetric] Let_def using True by (simp add: q_def sizes)
    from wd res show ?thesis by (simp add: at al)
  next
    case False
    have e31: "e < 2 ^ 31" using tr sz by (simp add: e_def sizes)
    have test: "\<not> to_size_t t > to_size_t (to_size_t e + sizeof_int + sizeof_node)"
      using split_test [OF er(1) e31 tr(2) tr(1)] False by simp
    let ?sc = "removeNode s p"
    have wc: "arena_ok ?sc (ts1 @ t # ts2) (remove1 p fl)"
      using w pfl by (rule removeNode_ok)
    have gc: "mem ?sc = mem s" by (simp add: removeNode_globals)
    have pc: "p = mem ?sc + total ts1" using p gc by simp
    note bc = ok_block [OF wc pc]
    have spc: "node_space ?sc p = t" using bc(7) by (simp add: node_space_def)
    have ae: "\<bar>t\<bar> = t" "to_int (- t) = - t" using tr by (simp_all add: to_int_def)
    have pnot: "p \<notin> set (remove1 p fl)" using g(7) by simp
    have wd: "arena_ok (write_int (set_space ?sc p (- t)) (p + sizeof_int + \<bar>t\<bar>) (- t))
                (ts1 @ (- t) # ts2) (remove1 p fl)"
      using wc pc by (rule mark_ok) (use pnot in simp_all)
    have res: "fst (myalloc_block s p sz)
        = write_int (set_space ?sc p (- t)) (p + sizeof_int + \<bar>t\<bar>) (- t)"
      unfolding myalloc_block_def Let_def mx sp
      using test by (simp add: spc ae sizes)
    have at: "alloc_tags t sz = [- t]"
      unfolding alloc_tags_def e_def [symmetric] Let_def using False by (simp add: sizes)
    have al: "alloc_list p t sz fl = remove1 p fl"
      unfolding alloc_list_def e_def [symmetric] Let_def using False by (simp add: sizes)
    from wd res show ?thesis by (simp add: at al)
  qed
qed

lemma set_space_globals [simp]:
  "mem (set_space s p v) = mem s" "MEMORY_SIZE (set_space s p v) = MEMORY_SIZE s"
  "freeList (set_space s p v) = freeList s"
  by (simp_all add: set_space_def)

lemma write_int_globals [simp]:
  "mem (write_int s p v) = mem s" "MEMORY_SIZE (write_int s p v) = MEMORY_SIZE s"
  "freeList (write_int s p v) = freeList s"
  by (simp_all add: write_int_def)

lemma splitBlock_globals [simp]:
  "mem (fst (splitBlock s p sz)) = mem s" "MEMORY_SIZE (fst (splitBlock s p sz)) = MEMORY_SIZE s"
  "freeList (fst (splitBlock s p sz)) = freeList s"
  by (simp_all add: splitBlock_result)

lemma myalloc_block_globals:
  "mem (fst (myalloc_block s p sz)) = mem s"
  "MEMORY_SIZE (fst (myalloc_block s p sz)) = MEMORY_SIZE s"
  unfolding myalloc_block_def Let_def split_def
  by (simp_all add: removeNode_globals addNode_globals)

lemma free_addrs_not_mid:
  assumes "x \<in> set (free_addrs a ts1) \<or> x \<in> set (free_addrs (a + total ts1 + block_size t) ts2)"
  shows "x \<noteq> a + total ts1"
  using assms free_addrs_before [of x a ts1]
    free_addrs_behind [of x "a + total ts1 + block_size t" ts2] block_size_pos [of t]
  by auto

lemma myalloc_block_inv:
  assumes inv: "heap_inv s (ts1 @ t # ts2) fl" and p: "p = mem s + total ts1"
    and t: "0 < t" and sz: "0 \<le> sz" "sz \<le> t"
  shows "heap_inv (fst (myalloc_block s p sz)) (ts1 @ alloc_tags t sz @ ts2) (alloc_list p t sz fl)"
proof -
  from inv have w: "arena_ok s (ts1 @ t # ts2) fl"
    and full: "set (free_addrs (mem s) (ts1 @ t # ts2)) \<subseteq> set fl"
    and naf: "no_adjacent_free (ts1 @ t # ts2)"
    by (simp_all add: heap_inv_def)
  note g = ok_globals [OF w]
  note b = ok_block [OF w p]
  have pfl: "p \<in> set fl" using inv p t by (rule ok_free_block_in_list)
  let ?s' = "fst (myalloc_block s p sz)"
  have w': "arena_ok ?s' (ts1 @ alloc_tags t sz @ ts2) (alloc_list p t sz fl)"
    using w p t pfl sz by (rule myalloc_block_ok)
  define e where "e = max sz min_payload"
  have er: "0 < e" by (simp add: e_def sizes)
  have F: "set (free_addrs (mem s) ts1) \<subseteq> set fl - {p}"
    "set (free_addrs (p + block_size t) ts2) \<subseteq> set fl - {p}"
    using full free_addrs_not_mid [of _ "mem s" ts1 t ts2] t
    by (auto simp: free_addrs_append free_addrs_Cons p [symmetric])
  have rm: "set (remove1 p fl) = set fl - {p}" using g(7) by simp
  show ?thesis
  proof (cases "t > e + 28")
    case True
    define n where "n = t - e - 8"
    define q where "q = p + e + 8"
    have at: "alloc_tags t sz = [- e, n]"
      unfolding alloc_tags_def e_def [symmetric] Let_def using True by (simp add: n_def sizes)
    have al: "alloc_list p t sz fl = q # remove1 p fl"
      unfolding alloc_list_def e_def [symmetric] Let_def using True by (simp add: q_def sizes)
    have nq: "0 < n" "p + block_size (- e) = q" "q + block_size n = p + block_size t"
      using True er by (simp_all add: n_def q_def sizes)
    have fa: "free_addrs (mem s) (ts1 @ [- e, n] @ ts2)
        = free_addrs (mem s) ts1 @ [q] @ free_addrs (p + block_size t) ts2"
      using nq er by (simp add: free_addrs_append free_addrs_Cons p [symmetric])
    have 1: "set (free_addrs (mem ?s') (ts1 @ alloc_tags t sz @ ts2)) \<subseteq> set (alloc_list p t sz fl)"
      unfolding myalloc_block_globals at al fa using F rm by auto
    have 2: "no_adjacent_free (ts1 @ alloc_tags t sz @ ts2)"
      using naf t er nq(1) unfolding at by (auto simp: naf_append naf_Cons)
    from w' 1 2 show ?thesis by (simp add: heap_inv_def)
  next
    case False
    have at: "alloc_tags t sz = [- t]"
      unfolding alloc_tags_def e_def [symmetric] Let_def using False by (simp add: sizes)
    have al: "alloc_list p t sz fl = remove1 p fl"
      unfolding alloc_list_def e_def [symmetric] Let_def using False by (simp add: sizes)
    have bs: "block_size (- t) = block_size t" by (simp add: sizes)
    have fa: "free_addrs (mem s) (ts1 @ [- t] @ ts2)
        = free_addrs (mem s) ts1 @ free_addrs (p + block_size t) ts2"
      using t by (simp add: free_addrs_append free_addrs_Cons p [symmetric] bs)
    have 1: "set (free_addrs (mem ?s') (ts1 @ alloc_tags t sz @ ts2)) \<subseteq> set (alloc_list p t sz fl)"
      unfolding myalloc_block_globals at al fa using F rm by auto
    have 2: "no_adjacent_free (ts1 @ alloc_tags t sz @ ts2)"
      using naf t unfolding at by (auto simp: naf_append naf_Cons)
    from w' 1 2 show ?thesis by (simp add: heap_inv_def)
  qed
qed

lemma total_pos: "ts \<noteq> [] \<Longrightarrow> 0 < total ts"
proof (cases ts)
  case Nil
  assume "ts \<noteq> []"
  with Nil show ?thesis by simp
next
  case (Cons t ts')
  show ?thesis using block_size_pos [of t] total_nonneg [of ts'] Cons by simp
qed

lemma myfree_backward_ok:
  assumes w: "arena_ok s (ts1 @ u # ts2) fl" and p: "p = mem s + total ts1"
    and u: "0 < u" and pfl: "p \<in> set fl"
  shows "ts1 \<noteq> [] \<and> 0 < last ts1 \<Longrightarrow>
           arena_ok (fst (myfree_backward s p u)) (butlast ts1 @ (last ts1 + u + 8) # ts2) (remove1 p fl) \<and>
           snd (myfree_backward s p u) = (p - block_size (last ts1), last ts1 + u + 8)"
    and "\<not> (ts1 \<noteq> [] \<and> 0 < last ts1) \<Longrightarrow> myfree_backward s p u = (s, p, u)"
proof -
  {
    assume a: "ts1 \<noteq> [] \<and> 0 < last ts1"
    then obtain ts0 tp where ts1: "ts1 = ts0 @ [tp]" and tp: "0 < tp"
      by (cases ts1 rule: rev_cases) auto
    define A where "A = mem s + total ts0"
    have w0: "arena_ok s (ts0 @ tp # u # ts2) fl" using w ts1 by simp
    note bA = ok_block [OF w0 A_def]
    have pA: "p = A + block_size tp" using p ts1 by (simp add: A_def total_append)
    have ne: "p \<noteq> mem s" using pA bA(1) block_size_pos [of tp] by simp
    have fa: "p - sizeof_int = A + sizeof_int + \<bar>tp\<bar>" using pA by (simp add: sizes)
    have foot: "read_int s (p - sizeof_int) = tp"
      unfolding read_int_def fa by (rule bA(8))
    have ph: "p - tp - 2 * sizeof_int = A" using pA tp by (simp add: sizes)
    let ?s1 = "coalesce s A p"
    have w1: "arena_ok ?s1 (ts0 @ (tp + u + 8) # ts2) (remove1 p fl)"
      using w0 A_def pA tp u pfl by (rule coalesce_ok)
    have m1: "mem ?s1 = mem s"
      by (simp add: coalesce_def Let_def removeNode_globals set_space_def write_int_def)
    have A1: "A = mem ?s1 + total ts0" using m1 by (simp add: A_def)
    have sp1: "node_space ?s1 A = tp + u + 8"
      using ok_block(7) [OF w1 A1] by (simp add: node_space_def)
    have "myfree_backward s p u = (?s1, A, tp + u + 8)"
      using ne foot tp by (simp add: myfree_backward_def Let_def ph sp1)
    with w1 ts1 pA show "arena_ok (fst (myfree_backward s p u))
        (butlast ts1 @ (last ts1 + u + 8) # ts2) (remove1 p fl) \<and>
        snd (myfree_backward s p u) = (p - block_size (last ts1), last ts1 + u + 8)"
      by simp
  }
  {
    assume a: "\<not> (ts1 \<noteq> [] \<and> 0 < last ts1)"
    show "myfree_backward s p u = (s, p, u)"
    proof (cases ts1 rule: rev_cases)
      case Nil
      then show ?thesis using p by (simp add: myfree_backward_def)
    next
      case (snoc ts0 tp)
      with a have tp: "\<not> 0 < tp" by simp
      define A where "A = mem s + total ts0"
      have w0: "arena_ok s (ts0 @ tp # u # ts2) fl" using w snoc by simp
      note bA = ok_block [OF w0 A_def]
      have pA: "p = A + block_size tp" using p snoc by (simp add: A_def total_append)
      have fa: "p - sizeof_int = A + sizeof_int + \<bar>tp\<bar>" using pA by (simp add: sizes)
      have foot: "read_int s (p - sizeof_int) = tp"
        unfolding read_int_def fa by (rule bA(8))
      show ?thesis using foot tp by (simp add: myfree_backward_def Let_def)
    qed
  }
qed

lemma myfree_forward_ok:
  assumes w: "arena_ok s (ts1 @ c # ts2) fl" and p: "p = mem s + total ts1" and c: "0 < c"
  shows "ts2 \<noteq> [] \<and> 0 < hd ts2 \<Longrightarrow> p + block_size c \<in> set fl \<Longrightarrow>
           arena_ok (myfree_forward s p c) (ts1 @ (c + hd ts2 + 8) # tl ts2)
             (remove1 (p + block_size c) fl)"
    and "\<not> (ts2 \<noteq> [] \<and> 0 < hd ts2) \<Longrightarrow> myfree_forward s p c = s"
proof -
  note g = ok_globals [OF w]
  define B where "B = p + block_size c"
  have e: "p + c + 2 * sizeof_int = B" using c by (simp add: B_def sizes)
  have tot: "B + total ts2 = mem s + MEMORY_SIZE s"
    using g(4) p by (simp add: total_append B_def)
  {
    assume a: "ts2 \<noteq> [] \<and> 0 < hd ts2" and Bfl: "p + block_size c \<in> set fl"
    then obtain tn ts3 where ts2: "ts2 = tn # ts3" and tn: "0 < tn" by (cases ts2) auto
    have ne: "B \<noteq> mem s + MEMORY_SIZE s" using tot total_pos [of ts2] a by simp
    have w2: "arena_ok s ((ts1 @ [c]) @ tn # ts3) fl" using w ts2 by simp
    have B2: "B = mem s + total (ts1 @ [c])" using p by (simp add: B_def total_append)
    have sp: "node_space s B = tn" using ok_block(7) [OF w2 B2] by (simp add: node_space_def)
    have w0: "arena_ok s (ts1 @ c # tn # ts3) fl" using w ts2 by simp
    have "arena_ok (coalesce s p B) (ts1 @ (c + tn + 8) # ts3) (remove1 B fl)"
      using w0 p B_def c tn Bfl [folded B_def] by (rule coalesce_ok)
    moreover have "myfree_forward s p c = coalesce s p B"
      using ne sp tn by (simp add: myfree_forward_def Let_def e)
    ultimately show "arena_ok (myfree_forward s p c) (ts1 @ (c + hd ts2 + 8) # tl ts2)
             (remove1 (p + block_size c) fl)"
      using ts2 by (simp add: B_def)
  }
  {
    assume a: "\<not> (ts2 \<noteq> [] \<and> 0 < hd ts2)"
    show "myfree_forward s p c = s"
    proof (cases ts2)
      case Nil
      with tot show ?thesis by (simp add: myfree_forward_def Let_def e)
    next
      case (Cons tn ts3)
      with a have tn: "\<not> 0 < tn" by simp
      have w2: "arena_ok s ((ts1 @ [c]) @ tn # ts3) fl" using w Cons by simp
      have B2: "B = mem s + total (ts1 @ [c])" using p by (simp add: B_def total_append)
      have sp: "node_space s B = tn" using ok_block(7) [OF w2 B2] by (simp add: node_space_def)
      show ?thesis using sp tn by (simp add: myfree_forward_def Let_def e)
    qed
  }
qed

lemma coalesce_globals [simp]:
  "mem (coalesce s A B) = mem s" "MEMORY_SIZE (coalesce s A B) = MEMORY_SIZE s"
  by (simp_all add: coalesce_def Let_def removeNode_globals)

lemma myfree_backward_globals [simp]:
  "mem (fst (myfree_backward s p u)) = mem s"
  "MEMORY_SIZE (fst (myfree_backward s p u)) = MEMORY_SIZE s"
  by (simp_all add: myfree_backward_def Let_def)

lemma myfree_forward_globals [simp]:
  "mem (myfree_forward s p u) = mem s" "MEMORY_SIZE (myfree_forward s p u) = MEMORY_SIZE s"
  by (simp_all add: myfree_forward_def Let_def)

lemma myfree_block_globals [simp]:
  "mem (myfree_block s p) = mem s" "MEMORY_SIZE (myfree_block s p) = MEMORY_SIZE s"
  by (simp_all add: myfree_block_def Let_def split_def addNode_globals)

lemma ok_alloc_not_in_list:
  assumes "arena_ok s (ts1 @ t # ts2) fl" and "p = mem s + total ts1" and "t < 0"
  shows "p \<notin> set fl"
proof
  assume "p \<in> set fl"
  from ok_node_apart [OF assms(1,2) this] assms(3) block_size_pos [of t] show False by auto
qed

lemma myfree_block_ok:
  assumes inv: "heap_inv s (ts1 @ t # ts2) fl" and p: "p = mem s + total ts1" and t: "t < 0"
  shows "arena_ok (myfree_block s (p + sizeof_int)) (free_tags ts1 t ts2) (free_list p ts1 t ts2 fl)"
proof -
  from inv have w: "arena_ok s (ts1 @ t # ts2) fl"
    and full: "set (free_addrs (mem s) (ts1 @ t # ts2)) \<subseteq> set fl"
    by (simp_all add: heap_inv_def)
  note g = ok_globals [OF w]
  note b = ok_block [OF w p]
  define u where "u = - t"
  have u: "0 < u" "\<bar>u\<bar> = \<bar>t\<bar>" "\<bar>t\<bar> = u" "block_size u = block_size t"
    using t by (simp_all add: u_def sizes)
  have tu: "to_int (- node_space s p) = u"
    using b(6,7) t by (simp add: node_space_def u_def to_int_def)
  have pnfl: "p \<notin> set fl" using w p t by (rule ok_alloc_not_in_list)
  let ?s2 = "write_int (set_space s p u) (p + sizeof_int + \<bar>t\<bar>) u"
  have w2: "arena_ok ?s2 (ts1 @ u # ts2) fl"
    using w p u(2) by (rule mark_ok) (simp add: pnfl)
  have p2: "p \<in> set (free_addrs (mem ?s2) (ts1 @ u # ts2))"
    using u(1) p by (simp add: free_addrs_append free_addrs_Cons)
  let ?s3 = "addNode ?s2 p"
  have w3: "arena_ok ?s3 (ts1 @ u # ts2) (p # fl)" using w2 p2 pnfl by (rule addNode_ok)
  have p3: "p = mem ?s3 + total ts1" using p by (simp add: addNode_globals)
  have start: "myfree_block s (p + sizeof_int) =
      (case myfree_backward ?s3 p u of (s4, headptr, space) \<Rightarrow> myfree_forward s4 headptr space)"
    by (simp add: myfree_block_def Let_def tu u(3))
  define nxt where "nxt = p + block_size t"
  have nfl: "ts2 \<noteq> [] \<and> 0 < hd ts2 \<Longrightarrow> nxt \<in> set fl \<and> nxt \<noteq> p"
  proof -
    assume "ts2 \<noteq> [] \<and> 0 < hd ts2"
    then have "nxt \<in> set (free_addrs (mem s) (ts1 @ t # ts2))"
      by (cases ts2) (auto simp: free_addrs_append free_addrs_Cons p [symmetric] nxt_def)
    with full block_size_pos [of t] show ?thesis by (auto simp: nxt_def)
  qed
  note bk = myfree_backward_ok [OF w3 p3 u(1)]
  show ?thesis
  proof (cases "ts1 \<noteq> [] \<and> 0 < last ts1")
    case bck: True
    define A where "A = p - block_size (last ts1)"
    define c where "c = last ts1 + u + 8"
    let ?s4 = "fst (myfree_backward ?s3 p u)"
    from bk(1) [OF _ bck] have w4: "arena_ok ?s4 (butlast ts1 @ c # ts2) fl"
      and r4: "snd (myfree_backward ?s3 p u) = (A, c)"
      by (simp_all add: A_def c_def)
    have c0: "0 < c" using bck u(1) by (simp add: c_def)
    have A4: "A = mem ?s4 + total (butlast ts1)"
    proof -
      have "total ts1 = total (butlast ts1) + block_size (last ts1)"
        using bck total_append [of "butlast ts1" "[last ts1]"] by simp
      then show ?thesis using p by (simp add: A_def addNode_globals)
    qed
    have Ac: "A + block_size c = nxt"
      using bck u(1) t by (simp add: A_def c_def nxt_def sizes u_def)
    note fw = myfree_forward_ok [OF w4 A4 c0]
    have res: "myfree_block s (p + sizeof_int) = myfree_forward ?s4 A c"
      by (simp add: start split_def r4)
    show ?thesis
    proof (cases "ts2 \<noteq> [] \<and> 0 < hd ts2")
      case True
      from fw(1) [OF True] nfl [OF True] Ac
      have 1: "arena_ok (myfree_forward ?s4 A c) (butlast ts1 @ (c + hd ts2 + 8) # tl ts2) (remove1 nxt fl)"
        by simp
      have ft: "free_tags ts1 t ts2 = butlast ts1 @ (c + hd ts2 + 8) # tl ts2"
        using bck True by (auto simp: free_tags_def Let_def c_def u_def sizes)
      have fl': "free_list p ts1 t ts2 fl = remove1 nxt fl"
        using bck True by (auto simp: free_list_def Let_def nxt_def)
      show ?thesis unfolding res ft fl' by (rule 1)
    next
      case False
      have 1: "arena_ok (myfree_forward ?s4 A c) (butlast ts1 @ c # ts2) fl"
        using fw(2) [OF False] w4 by simp
      have ft: "free_tags ts1 t ts2 = butlast ts1 @ c # ts2"
        using bck False by (auto simp: free_tags_def Let_def c_def u_def sizes)
      have fl': "free_list p ts1 t ts2 fl = fl"
        using bck False by (auto simp: free_list_def Let_def)
      show ?thesis unfolding res ft fl' by (rule 1)
    qed
  next
    case noback: False
    have e4: "myfree_backward ?s3 p u = (?s3, p, u)" using bk(2) [OF _ noback] by simp
    note fw = myfree_forward_ok [OF w3 p3 u(1)]
    have res: "myfree_block s (p + sizeof_int) = myfree_forward ?s3 p u" by (simp add: start e4)
    show ?thesis
    proof (cases "ts2 \<noteq> [] \<and> 0 < hd ts2")
      case True
      from fw(1) [OF True] nfl [OF True] u(4)
      have 1: "arena_ok (myfree_forward ?s3 p u) (ts1 @ (u + hd ts2 + 8) # tl ts2) (remove1 nxt (p # fl))"
        by (simp add: nxt_def)
      have ft: "free_tags ts1 t ts2 = ts1 @ (u + hd ts2 + 8) # tl ts2"
        using noback True by (auto simp: free_tags_def Let_def u_def sizes)
      have fl': "free_list p ts1 t ts2 fl = remove1 nxt (p # fl)"
        using noback True by (auto simp: free_list_def Let_def nxt_def)
      show ?thesis unfolding res ft fl' by (rule 1)
    next
      case False
      have 1: "arena_ok (myfree_forward ?s3 p u) (ts1 @ u # ts2) (p # fl)"
        using fw(2) [OF False] w3 by simp
      have ft: "free_tags ts1 t ts2 = ts1 @ u # ts2"
        using noback False by (auto simp: free_tags_def Let_def u_def sizes)
      have fl': "free_list p ts1 t ts2 fl = p # fl"
        using noback False by (auto simp: free_list_def Let_def)
      show ?thesis unfolding res ft fl' by (rule 1)
    qed
  qed
qed

lemma alloc_ptrs_append:
  "alloc_ptrs a (ts1 @ ts2) = alloc_ptrs a ts1 @ alloc_ptrs (a + total ts1) ts2"
  by (simp add: alloc_ptrs_def blocks_append)

lemma alloc_ptrs_Cons:
  "alloc_ptrs a (t # ts) = (if t < 0 then [a + sizeof_int] else []) @ alloc_ptrs (a + block_size t) ts"
  by (simp add: alloc_ptrs_def)

lemma free_addrs_Nil [simp]: "free_addrs a [] = []"
  by (simp add: free_addrs_def)

lemma alloc_ptrs_Nil [simp]: "alloc_ptrs a [] = []"
  by (simp add: alloc_ptrs_def)

lemma free_addrs_mid:
  "free_addrs a (ts1 @ mid @ ts2)
     = free_addrs a ts1 @ free_addrs (a + total ts1) mid @ free_addrs (a + total ts1 + total mid) ts2"
  by (simp add: free_addrs_append add.assoc)

lemma alloc_ptrs_mid:
  "alloc_ptrs a (ts1 @ mid @ ts2)
     = alloc_ptrs a ts1 @ alloc_ptrs (a + total ts1) mid @ alloc_ptrs (a + total ts1 + total mid) ts2"
  by (simp add: alloc_ptrs_append add.assoc)

text \<open>
  What \<^verbatim>\<open>myfree\<close> does to the tags, seen as the replacement of a run of blocks \<open>mid\<close>
  around the freed block by one free block.
\<close>

lemma free_tags_cases:
  assumes t: "t < 0"
  obtains pre mid post c where
    "ts1 @ t # ts2 = pre @ mid @ post" "free_tags ts1 t ts2 = pre @ [c] @ post"
    "total [c] = total mid" "0 < c"
    "mid = (if ts1 \<noteq> [] \<and> 0 < last ts1 then [last ts1] else []) @ [t] @
           (if ts2 \<noteq> [] \<and> 0 < hd ts2 then [hd ts2] else [])"
    "ts1 = pre @ (if ts1 \<noteq> [] \<and> 0 < last ts1 then [last ts1] else [])"
    "ts2 = (if ts2 \<noteq> [] \<and> 0 < hd ts2 then [hd ts2] else []) @ post"
proof -
  define b where "b = (ts1 \<noteq> [] \<and> 0 < last ts1)"
  define f where "f = (ts2 \<noteq> [] \<and> 0 < hd ts2)"
  define pre where "pre = (if b then butlast ts1 else ts1)"
  define post where "post = (if f then tl ts2 else ts2)"
  define mid where "mid = (if b then [last ts1] else []) @ [t] @ (if f then [hd ts2] else [])"
  define c where "c = (if b then last ts1 + 8 else 0) + (- t) + (if f then hd ts2 + 8 else 0)"
  have 1: "ts1 = pre @ (if b then [last ts1] else [])" by (auto simp: pre_def b_def)
  have 2: "ts2 = (if f then [hd ts2] else []) @ post" by (auto simp: post_def f_def)
  have 3: "ts1 @ t # ts2 = pre @ mid @ post"
    by (subst 1, subst 2) (simp add: mid_def)
  have 4: "free_tags ts1 t ts2 = pre @ [c] @ post"
    by (auto simp: free_tags_def Let_def b_def f_def pre_def post_def c_def sizes)
  have 5: "total [c] = total mid" using t by (auto simp: c_def mid_def b_def f_def sizes)
  have 6: "0 < c" using t by (auto simp: c_def b_def f_def)
  show thesis using that [of pre mid post c] 1 2 3 4 5 6 by (simp add: mid_def b_def f_def)
qed

lemma myfree_block_inv:
  assumes inv: "heap_inv s (ts1 @ t # ts2) fl" and p: "p = mem s + total ts1" and t: "t < 0"
  shows "heap_inv (myfree_block s (p + sizeof_int)) (free_tags ts1 t ts2) (free_list p ts1 t ts2 fl)"
    and "set (alloc_ptrs (mem s) (ts1 @ t # ts2)) - {p + sizeof_int}
           \<subseteq> set (alloc_ptrs (mem s) (free_tags ts1 t ts2))"
proof -
  from inv have w: "arena_ok s (ts1 @ t # ts2) fl"
    and full: "set (free_addrs (mem s) (ts1 @ t # ts2)) \<subseteq> set fl"
    and naf: "no_adjacent_free (ts1 @ t # ts2)"
    by (simp_all add: heap_inv_def)
  have w': "arena_ok (myfree_block s (p + sizeof_int)) (free_tags ts1 t ts2) (free_list p ts1 t ts2 fl)"
    using inv p t by (rule myfree_block_ok)
  define b where "b = (ts1 \<noteq> [] \<and> 0 < last ts1)"
  define f where "f = (ts2 \<noteq> [] \<and> 0 < hd ts2)"
  from free_tags_cases [OF t, of ts1 ts2] obtain pre mid post c where
    old: "ts1 @ t # ts2 = pre @ mid @ post" and new: "free_tags ts1 t ts2 = pre @ [c] @ post"
    and tot: "total [c] = total mid" and c: "0 < c"
    and mid: "mid = (if b then [last ts1] else []) @ [t] @ (if f then [hd ts2] else [])"
    and pre: "ts1 = pre @ (if b then [last ts1] else [])"
    and post: "ts2 = (if f then [hd ts2] else []) @ post"
    unfolding b_def f_def by blast
  define P where "P = mem s + total pre"
  define nxt where "nxt = p + block_size t"
  have pP: "p = P + (if b then block_size (last ts1) else 0)"
    using p by (subst (asm) pre) (auto simp: P_def total_append)
  have endmid: "P + total mid = nxt + (if f then block_size (hd ts2) else 0)"
    using pP by (auto simp: mid nxt_def)
  have bl: "b \<Longrightarrow> 0 < last ts1" and fh: "f \<Longrightarrow> 0 < hd ts2" by (auto simp: b_def f_def)
  have fmid: "free_addrs P mid = (if b then [P] else []) @ (if f then [nxt] else [])"
    using t bl fh pP by (auto simp: mid free_addrs_Cons nxt_def)
  have amid: "alloc_ptrs P mid = [p + sizeof_int]"
    using t bl fh pP by (auto simp: mid alloc_ptrs_Cons)
  have fa_old: "free_addrs (mem s) (ts1 @ t # ts2)
      = free_addrs (mem s) pre @ free_addrs P mid @ free_addrs (P + total mid) post"
    unfolding old P_def by (rule free_addrs_mid)
  have fa_new: "free_addrs (mem s) (free_tags ts1 t ts2)
      = free_addrs (mem s) pre @ [P] @ free_addrs (P + total mid) post"
    unfolding new using c free_addrs_mid [of "mem s" pre "[c]" post] tot
    by (simp add: P_def free_addrs_Cons)
  have al_old: "alloc_ptrs (mem s) (ts1 @ t # ts2)
      = alloc_ptrs (mem s) pre @ alloc_ptrs P mid @ alloc_ptrs (P + total mid) post"
    unfolding old P_def by (rule alloc_ptrs_mid)
  have al_new: "alloc_ptrs (mem s) (free_tags ts1 t ts2)
      = alloc_ptrs (mem s) pre @ alloc_ptrs (P + total mid) post"
    unfolding new using c alloc_ptrs_mid [of "mem s" pre "[c]" post] tot
    by (simp add: P_def alloc_ptrs_Cons)
  show "set (alloc_ptrs (mem s) (ts1 @ t # ts2)) - {p + sizeof_int}
           \<subseteq> set (alloc_ptrs (mem s) (free_tags ts1 t ts2))"
    unfolding al_old al_new amid by auto
  have fl': "set (free_list p ts1 t ts2 fl)
      = (if b then set fl else insert p (set fl)) - (if f then {nxt} else {})"
    using ok_globals(7) [OF w] ok_alloc_not_in_list [OF w p t] block_size_pos [of t]
    by (auto simp: free_list_def Let_def b_def f_def nxt_def)
  have lo: "\<And>x. x \<in> set (free_addrs (mem s) pre) \<Longrightarrow> x < nxt"
    using free_addrs_before [of _ "mem s" pre] pP block_size_pos [of t] block_size_pos [of "last ts1"]
    by (fastforce simp: P_def nxt_def split: if_splits)
  have hi: "\<And>x. f \<Longrightarrow> x \<in> set (free_addrs (P + total mid) post) \<Longrightarrow> nxt < x"
    using free_addrs_behind [of _ "P + total mid" post] endmid block_size_pos [of "hd ts2"]
    by fastforce
  have Pn: "P < nxt" using pP block_size_pos [of t] block_size_pos [of "last ts1"]
    by (auto simp: nxt_def split: if_splits)
  have 1: "set (free_addrs (mem (myfree_block s (p + sizeof_int))) (free_tags ts1 t ts2))
      \<subseteq> set (free_list p ts1 t ts2 fl)"
    using full lo hi Pn pP unfolding fa_old fa_new fmid fl' myfree_block_globals
    by (auto split: if_splits)
  have n1: "no_adjacent_free ts1" "no_adjacent_free ts2"
    "ts1 = [] \<or> \<not> 0 < last ts1 \<or> True" "ts2 = [] \<or> \<not> 0 < hd ts2 \<or> True"
    using naf by (auto simp: naf_append naf_Cons)
  have A: "no_adjacent_free pre \<and> (pre = [] \<or> \<not> 0 < last pre)"
  proof (cases b)
    case True
    with pre have "ts1 = pre @ [last ts1]" by simp
    with n1(1) bl [OF True] show ?thesis by (metis naf_append hd_conv_nth list.sel(1) not_Cons_self2)
  next
    case False
    with pre have "ts1 = pre" by simp
    with n1(1) False show ?thesis by (auto simp: b_def)
  qed
  have B: "no_adjacent_free post \<and> (post = [] \<or> \<not> 0 < hd post)"
  proof (cases f)
    case True
    with post have "ts2 = hd ts2 # post" by simp
    with n1(2) fh [OF True] show ?thesis by (metis naf_Cons)
  next
    case False
    with post have "ts2 = post" by simp
    with n1(2) False show ?thesis by (auto simp: f_def)
  qed
  have 2: "no_adjacent_free (free_tags ts1 t ts2)"
    unfolding new using A B by (auto simp: naf_append naf_Cons)
  show "heap_inv (myfree_block s (p + sizeof_int)) (free_tags ts1 t ts2) (free_list p ts1 t ts2 fl)"
    using w' 1 2 by (simp add: heap_inv_def)
qed
lemma checkMem_loop_tiles:
  "tiles (heap s) a ts \<Longrightarrow> a + total ts = mem s + MEMORY_SIZE s \<Longrightarrow>
   0 \<le> fm \<Longrightarrow> 0 \<le> am \<Longrightarrow> am + fm + total ts < 2 ^ 31 \<Longrightarrow>
   checkMem_loop s a fm am = Some (am + fm + total ts)"
proof (induction ts arbitrary: a fm am)
  case Nil
  then have "to_int (am + fm) = am + fm" by (intro to_int_id) auto
  with Nil show ?case by (subst checkMem_loop.simps) simp
next
  case (Cons t ts)
  have ne: "a \<noteq> mem s + MEMORY_SIZE s"
    using Cons.prems(2) total_pos [of "t # ts"] by simp
  have sp: "node_space s a = t" using Cons.prems(1) by (simp add: node_space_def)
  have bs: "to_int (\<bar>t\<bar> + 2 * sizeof_int) = block_size t"
    unfolding block_size_def
    using Cons.prems(3,4,5) total_nonneg [of ts] by (intro to_int_id) (auto simp: sizes)
  have nn: "0 \<le> block_size t" using block_size_pos [of t] by simp
  have r: "to_int (am + block_size t) = am + block_size t"
    "to_int (fm + block_size t) = fm + block_size t"
    using Cons.prems(3,4,5) total_nonneg [of ts] nn by (auto intro!: to_int_id)
  have t1: "tiles (heap s) (a + block_size t) ts" using Cons.prems(1) by simp
  have t2: "a + block_size t + total ts = mem s + MEMORY_SIZE s" using Cons.prems(2) by simp
  have step: "checkMem_loop s a fm am =
      (if t < 0 then checkMem_loop s (a + block_size t) fm (am + block_size t)
       else checkMem_loop s (a + block_size t) (fm + block_size t) am)"
    by (subst checkMem_loop.simps) (simp only: ne if_False sp Let_def bs r)
  show ?case
  proof (cases "t < 0")
    case True
    have "checkMem_loop s (a + block_size t) fm (am + block_size t)
        = Some (am + block_size t + fm + total ts)"
      using t1 t2 Cons.prems(3,4,5) nn by (intro Cons.IH) auto
    with True show ?thesis by (simp add: step)
  next
    case False
    have "checkMem_loop s (a + block_size t) (fm + block_size t) am
        = Some (am + (fm + block_size t) + total ts)"
      using t1 t2 Cons.prems(3,4,5) nn by (intro Cons.IH) auto
    with False show ?thesis by (simp add: step)
  qed
qed

lemma checkMem_ok: "arena_ok s ts fl \<Longrightarrow> checkMem s = Some (MEMORY_SIZE s)"
proof -
  assume w: "arena_ok s ts fl"
  note g = ok_globals [OF w]
  have "checkMem_loop s (mem s) 0 0 = Some (0 + 0 + total ts)"
    using g by (intro checkMem_loop_tiles) auto
  with g(4) show ?thesis by (simp add: checkMem_def)
qed

lemma assert_checkMem_ok: "arena_ok s ts fl \<Longrightarrow> assert_checkMem s r = Some (Inr r)"
  by (simp add: assert_checkMem_def checkMem_ok)

lemma init_myalloc_inv:
  assumes n: "sizeof_int + sizeof_node \<le> MEMORY_SIZE s0" "MEMORY_SIZE s0 < 2 ^ 31"
    and base: "0 < base" "base + MEMORY_SIZE s0 \<le> 2 ^ 64"
  shows "\<exists>s. init_myalloc s0 base = Some (Inr s) \<and> heap_inv s [MEMORY_SIZE s0 - 2 * sizeof_int] [base] \<and>
             mem s = base \<and> MEMORY_SIZE s = MEMORY_SIZE s0"
proof -
  define sp where "sp = MEMORY_SIZE s0 - 8"
  define f where "f = base + 4 + sp"
  have spc: "to_int (to_size_t (MEMORY_SIZE s0) - 8) = sp"
    using n by (simp add: to_int_def to_size_t_def sp_def sizes)
  have ar: "20 \<le> sp" "base + 24 \<le> f" "\<bar>sp\<bar> = sp" "0 < sp" using n by (simp_all add: sp_def f_def sizes)
  have tsp: "to_int sp = sp" using n ar by (intro to_int_id) (auto simp: sp_def)
  define h where "h = store_int (store_ptr (store_ptr (store_int (heap s0) base sp) (base + 8) NULL)
      (base + 16) NULL) f sp"
  define s where "s = s0\<lparr>mem := base, freeList := base, heap := h\<rparr>"
  have res: "init_myalloc s0 base = Some (Inr s)"
    using base(1) by (simp add: init_myalloc_def Let_def spc addNode_def set_space_def set_next_def
        set_prev_def write_int_def s_def h_def f_def sizes)
  have l1: "load_int h base = sp"
    using ar tsp by (simp add: h_def load_int_store_int_other load_int_store_ptr_other load_int_store_int)
  have l2: "load_int h f = sp" using tsp by (simp add: h_def load_int_store_int)
  have l3: "load_ptr h (base + 8) = NULL"
    using ar by (simp add: h_def load_ptr_store_int_other load_ptr_store_ptr_other load_ptr_store_ptr)
  have l4: "load_ptr h (base + 16) = NULL"
    using ar by (simp add: h_def load_ptr_store_int_other load_ptr_store_ptr)
  have a: "base + sizeof_int + \<bar>sp\<bar> = f" using ar by (simp add: f_def sizes)
  have ti: "tiles h base [sp]" unfolding tiles.simps a using l1 l2 ar by (simp add: sizes)
  have dl: "dlist h base [base]" using base(1) l3 l4 by (simp add: dlist_def sizes)
  have "heap_inv s [sp] [base]"
    using n base ti dl ar
    by (simp add: heap_inv_def arena_ok_def s_def free_addrs_Cons sp_def sizes)
  with res show ?thesis by (auto simp: sp_def s_def sizes)
qed

lemma isValid_allocated:
  assumes w: "arena_ok s (ts1 @ t # ts2) fl" and p: "p = mem s + total ts1" and t: "t < 0"
  shows "isValid s (p + sizeof_int) = 1"
proof -
  note b = ok_block [OF w p]
  have sp: "to_int (- read_int s (p + sizeof_int - sizeof_int)) = - t"
    using b(6,7) t by (simp add: read_int_def to_int_def)
  have ft: "read_int s (p + sizeof_int + (- t)) = t"
    using b(8) t by (simp add: read_int_def)
  show ?thesis
    unfolding isValid_def Let_def sp ft
    using b(1,2,5) t by (simp add: sizes)
qed

lemma myfree_ok:
  assumes inv: "heap_inv s (ts1 @ t # ts2) fl" and p: "p = mem s + total ts1" and t: "t < 0"
  shows "myfree s (p + sizeof_int) = Some (Inr (myfree_block s (p + sizeof_int)))"
proof -
  from inv have w: "arena_ok s (ts1 @ t # ts2) fl" by (simp add: heap_inv_def)
  have v: "isValid s (p + sizeof_int) = 1" using w p t by (rule isValid_allocated)
  have "arena_ok (myfree_block s (p + sizeof_int)) (free_tags ts1 t ts2) (free_list p ts1 t ts2 fl)"
    using inv p t by (rule myfree_block_ok)
  from assert_checkMem_ok [OF this] v show ?thesis by (simp add: myfree_def Let_def)
qed

lemma myalloc_null:
  assumes "arena_ok s ts fl" and "\<forall>q\<in>set fl. node_space s q < sz"
  shows "myalloc s sz = Some (Inr (s, NULL))"
proof -
  have "best_fit (node_space s) fl sz = NULL"
    using assms(2) by (simp add: best_fit_none fits_empty_iff)
  then show ?thesis by (simp add: myalloc_def findHead_path [OF ok_path [OF assms(1)]])
qed

lemma myalloc_found:
  assumes inv: "heap_inv s ts fl" and sz: "0 \<le> sz" and fit: "\<exists>q\<in>set fl. sz \<le> node_space s q"
  shows "\<exists>ts1 t ts2 p. ts = ts1 @ t # ts2 \<and> p = mem s + total ts1 \<and> 0 < t \<and> sz \<le> t \<and>
           p = best_fit (node_space s) fl sz \<and> p \<in> set fl \<and>
           myalloc s sz = Some (Inr (fst (myalloc_block s p sz), p + sizeof_int)) \<and>
           heap_inv (fst (myalloc_block s p sz)) (ts1 @ alloc_tags t sz @ ts2) (alloc_list p t sz fl)"
proof -
  from inv have w: "arena_ok s ts fl" by (simp add: heap_inv_def)
  define p where "p = best_fit (node_space s) fl sz"
  have ne: "fits (node_space s) sz fl \<noteq> []" using fit by (auto simp: fits_empty_iff not_less)
  from best_fit_in_fits [OF ne] have pin: "p \<in> set fl" and psz: "sz \<le> node_space s p"
    by (simp_all add: p_def fits_def)
  from ok_node [OF w pin] obtain ts1 t ts2 where
    ts: "ts = ts1 @ t # ts2" "p = mem s + total ts1" "0 < t" by blast
  note b = ok_block [OF w [unfolded ts(1)] ts(2)]
  have sp: "node_space s p = t" using b(7) by (simp add: node_space_def)
  have inv': "heap_inv s (ts1 @ t # ts2) fl" using inv ts(1) by simp
  have szt: "sz \<le> t" using psz sp by simp
  let ?s' = "fst (myalloc_block s p sz)"
  have h': "heap_inv ?s' (ts1 @ alloc_tags t sz @ ts2) (alloc_list p t sz fl)"
    using inv' ts(2,3) sz szt by (rule myalloc_block_inv)
  then have w': "arena_ok ?s' (ts1 @ alloc_tags t sz @ ts2) (alloc_list p t sz fl)"
    by (simp add: heap_inv_def)
  have blk: "myalloc_block s p sz = (?s', p + sizeof_int)"
    using myalloc_block_ptr [of s p sz] by (cases "myalloc_block s p sz") simp
  have fh: "findHead s sz = Some p"
    unfolding p_def by (rule findHead_path [OF ok_path [OF w]])
  have "myalloc s sz = assert_checkMem ?s' (?s', p + sizeof_int)"
  proof -
    have "myalloc s sz = (let (s4, resultptr) = myalloc_block s p sz
                          in assert_checkMem s4 (s4, resultptr))"
      using b(3) by (simp add: myalloc_def fh)
    also have "\<dots> = assert_checkMem ?s' (?s', p + sizeof_int)"
      by (subst blk) simp
    finally show ?thesis .
  qed
  with assert_checkMem_ok [OF w'] have "myalloc s sz = Some (Inr (?s', p + sizeof_int))" by simp
  with ts szt pin h' show ?thesis unfolding p_def by blast
qed
section \<open>Requests that are not positive\<close>

lemma free_node_positive: "arena_ok s ts fl \<Longrightarrow> q \<in> set fl \<Longrightarrow> 0 < node_space s q"
proof -
  assume w: "arena_ok s ts fl" and q: "q \<in> set fl"
  from ok_node [OF w q] obtain ts1 t ts2 where
    ts: "ts = ts1 @ t # ts2" "q = mem s + total ts1" "0 < t" by blast
  from ok_block(7) [OF w [unfolded ts(1)] ts(2)] ts(3) show ?thesis by (simp add: node_space_def)
qed

lemma st_init_inv: "heap_inv st_init [192] [1000]"
  by code_simp

lemma st_full_inv: "heap_inv st_full [- 192] []"
  by code_simp

text \<open>
  C5 (as amended).  On a well-formed arena and for a request \<open>\<le> 0\<close>:
  when the free list is empty, \<^verbatim>\<open>myalloc(request)\<close> returns null, with the state unchanged
  and without aborting; when the free list is not empty and the request is 0, the request
  is not rejected: \<^verbatim>\<open>myalloc(0)\<close> returns, without aborting, the payload pointer of the
  smallest block of the free list (the first such block in list order), which is not
  null, and the arena it leaves is well formed.  Negative requests on a non-empty free
  list are not covered.
\<close>

theorem myalloc_nonpositive_request:
  assumes "heap_inv s ts fl" and "request \<le> 0"
  shows "(fl = [] \<longrightarrow> myalloc s request = Some (Inr (s, NULL))) \<and>
         (fl \<noteq> [] \<and> request = 0 \<longrightarrow>
            (\<exists>s' p ts' fl'. myalloc s request = Some (Inr (s', p + sizeof_int)) \<and>
               p = best_fit (node_space s) fl 0 \<and> p \<in> set fl \<and> p + sizeof_int \<noteq> NULL \<and>
               heap_inv s' ts' fl'))"
proof (intro conjI impI)
  from assms(1) have w: "arena_ok s ts fl" by (simp add: heap_inv_def)
  {
    assume "fl = []"
    then have "\<forall>q\<in>set fl. node_space s q < request" by simp
    with w show "myalloc s request = Some (Inr (s, NULL))" by (rule myalloc_null)
  }
  {
    assume a: "fl \<noteq> [] \<and> request = 0"
    then obtain q where q: "q \<in> set fl" by (cases fl) auto
    from free_node_positive [OF w q] q have fit: "\<exists>q\<in>set fl. 0 \<le> node_space s q" by force
    from myalloc_found [OF assms(1) _ fit] obtain ts1 t ts2 p where
      r: "ts = ts1 @ t # ts2" "p = mem s + total ts1" "p = best_fit (node_space s) fl 0" "p \<in> set fl"
         "myalloc s 0 = Some (Inr (fst (myalloc_block s p 0), p + sizeof_int))"
         "heap_inv (fst (myalloc_block s p 0)) (ts1 @ alloc_tags t 0 @ ts2) (alloc_list p t 0 fl)"
      by auto
    from ok_globals [OF w] r(2) total_nonneg [of ts1] have "0 < p + sizeof_int"
      by (simp add: sizeof_int_def)
    with r a show "\<exists>s' p ts' fl'. myalloc s request = Some (Inr (s', p + sizeof_int)) \<and>
               p = best_fit (node_space s) fl 0 \<and> p \<in> set fl \<and> p + sizeof_int \<noteq> NULL \<and>
               heap_inv s' ts' fl'"
      by (intro exI [of _ "fst (myalloc_block s p 0)"] exI [of _ p]
                exI [of _ "ts1 @ alloc_tags t 0 @ ts2"] exI [of _ "alloc_list p t 0 fl"]) simp
  }
qed

theorem myalloc_nonpositive_request_witness:
  "heap_inv st_full [- 192] [] \<and> myalloc st_full (- 5) = Some (Inr (st_full, NULL)) \<and>
   myalloc st_full 0 = Some (Inr (st_full, NULL)) \<and>
   heap_inv st_init [192] [1000] \<and>
   (\<exists>s' ts' fl'. myalloc st_init 0 = Some (Inr (s', 1000 + sizeof_int)) \<and> heap_inv s' ts' fl')"
proof -
  have b: "best_fit (node_space st_init) [1000] 0 = 1000" by code_simp
  show ?thesis
    using myalloc_nonpositive_request [OF st_full_inv, of "- 5"]
      myalloc_nonpositive_request [OF st_full_inv, of 0]
      myalloc_nonpositive_request [OF st_init_inv, of 0] st_full_inv st_init_inv
    by (auto simp: b)
qed

text \<open>
  On the freshly initialised pool of 200 bytes at address 1000, \<^verbatim>\<open>myalloc(0)\<close> returns the
  payload pointer 1004, not null.
\<close>

theorem myalloc_zero_not_null:
  "(0::int) \<le> 0 \<and> result_ptr (myalloc st_init 0) = Some (Inr 1004)"
  by code_simp

section \<open>Backward coalescing in myfree\<close>

text \<open>
  In a well-formed arena where the block before the allocated block of payload pointer
  \<open>oldptr\<close> is free with payload \<open>tp\<close>: the block is not the first of the pool, the word
  before its header is \<open>tp\<close>, also at the moment \<^verbatim>\<open>myfree\<close> reads it (after it has rewritten
  the tags of the block and added it to the free list), and the header of the previous
  block is at \<open>oldptr - tp - 3T\<close>.
\<close>

lemma myfree_block_prev_footer:
  assumes inv: "heap_inv s (ts0 @ tp # t # ts2) fl" and p: "oldptr = mem s + total ts0 + block_size tp + sizeof_int"
    and t: "t < 0" and tp: "0 < tp"
  shows "oldptr - sizeof_int \<noteq> mem s"
    and "read_int s (oldptr - sizeof_int - sizeof_int) = tp"
    and "read_int (addNode (write_int (set_space s (oldptr - sizeof_int) (- t)) (oldptr + (- t)) (- t))
                     (oldptr - sizeof_int)) (oldptr - sizeof_int - sizeof_int) = tp"
    and "to_int (- node_space s (oldptr - sizeof_int)) = - t"
    and "oldptr - tp - 3 * sizeof_int = mem s + total ts0"
proof -
  define q where "q = oldptr - sizeof_int"
  define A where "A = mem s + total ts0"
  define u where "u = - t"
  define ts1 where "ts1 = ts0 @ [tp]"
  have w: "arena_ok s (ts1 @ t # ts2) fl" using inv by (simp add: heap_inv_def ts1_def)
  have w0: "arena_ok s (ts0 @ tp # t # ts2) fl" using inv by (simp add: heap_inv_def)
  have q: "q = mem s + total ts1" using p by (simp add: q_def total_append ts1_def)
  have qA: "q = A + block_size tp" using p by (simp add: q_def A_def)
  note bA = ok_block [OF w0 A_def]
  note b = ok_block [OF w q]
  show "oldptr - sizeof_int \<noteq> mem s"
    using qA bA(1) block_size_pos [of tp] by (simp add: q_def)
  have fa: "oldptr - sizeof_int - sizeof_int = A + sizeof_int + \<bar>tp\<bar>"
    using qA by (simp add: q_def sizes)
  show "read_int s (oldptr - sizeof_int - sizeof_int) = tp"
    unfolding read_int_def fa by (rule bA(8))
  have u: "0 < u" "\<bar>u\<bar> = \<bar>t\<bar>" using t by (simp_all add: u_def)
  show tu: "to_int (- node_space s (oldptr - sizeof_int)) = - t"
    using b(6,7) t by (simp add: node_space_def to_int_def q_def [symmetric])
  have pnfl: "q \<notin> set fl" using w q t by (rule ok_alloc_not_in_list)
  let ?s2 = "write_int (set_space s q u) (q + sizeof_int + \<bar>t\<bar>) u"
  have w2: "arena_ok ?s2 (ts1 @ u # ts2) fl"
    using w q u(2) by (rule mark_ok) (simp add: pnfl)
  have p2: "q \<in> set (free_addrs (mem ?s2) (ts1 @ u # ts2))"
    using u(1) q by (simp add: free_addrs_append free_addrs_Cons)
  let ?s3 = "addNode ?s2 q"
  have w3: "arena_ok ?s3 (ts1 @ u # ts2) (q # fl)" using w2 p2 pnfl by (rule addNode_ok)
  then have w3': "arena_ok ?s3 (ts0 @ tp # u # ts2) (q # fl)" by (simp add: ts1_def)
  have A3: "A = mem ?s3 + total ts0" by (simp add: A_def addNode_globals)
  have e: "oldptr + u = q + sizeof_int + \<bar>t\<bar>" using t by (simp add: q_def u_def)
  show "read_int (addNode (write_int (set_space s (oldptr - sizeof_int) (- t)) (oldptr + (- t)) (- t))
                     (oldptr - sizeof_int)) (oldptr - sizeof_int - sizeof_int) = tp"
    unfolding q_def [symmetric] u_def [symmetric] read_int_def
    unfolding e fa [unfolded q_def [symmetric]] by (rule ok_block(8) [OF w3' A3])
  show "oldptr - tp - 3 * sizeof_int = mem s + total ts0"
    using p tp by (simp add: sizes)
qed

lemma st_fa_mem: "mem st_fa = 1000" by code_simp
lemma st_fa_space: "to_int (- node_space st_fa (1032 - sizeof_int)) = 20" by code_simp
lemma st_fb_mid_eq: "st_fb_mid = addNode (write_int (set_space st_fa (1032 - sizeof_int) 20) (1032 + 20) 20) (1032 - sizeof_int)"
  by (simp add: st_fb_mid_def sizeof_int_def)

text \<open>
  C6 (as amended).  In \<^verbatim>\<open>myfree(oldptr)\<close>, when the block being freed is not the first
  block of the pool and the word before its header (the footer of the previous block,
  read after the tags of the block are rewritten and the block is added to the free list)
  is positive, the header address handed to \<^verbatim>\<open>coalesce\<close> is the header address
  \<open>oldptr - T\<close> of the freed block minus the footer value minus \<open>2T\<close>, that is
  \<open>oldptr - prev_footer - 3T\<close>.
\<close>

theorem myfree_block_prev_header:
  assumes "space = to_int (- node_space s (oldptr - sizeof_int))"
    and "s3 = addNode (write_int (set_space s (oldptr - sizeof_int) space) (oldptr + space) space)
                (oldptr - sizeof_int)"
    and "oldptr - sizeof_int \<noteq> mem s"
    and "prev_footer = read_int s3 (oldptr - sizeof_int - sizeof_int)"
    and "0 < prev_footer"
  shows "myfree_block s oldptr =
           (let prevHeadptr = oldptr - prev_footer - 3 * sizeof_int;
                s4 = coalesce s3 prevHeadptr (oldptr - sizeof_int)
            in myfree_forward s4 prevHeadptr (node_space s4 prevHeadptr))"
proof -
  have m: "mem s3 = mem s" unfolding assms(2) by (simp add: addNode_globals)
  have a: "oldptr - sizeof_int - prev_footer - 2 * sizeof_int = oldptr - prev_footer - 3 * sizeof_int"
    by simp
  have "myfree_backward s3 (oldptr - sizeof_int) space =
          (coalesce s3 (oldptr - prev_footer - 3 * sizeof_int) (oldptr - sizeof_int),
           oldptr - prev_footer - 3 * sizeof_int,
           node_space (coalesce s3 (oldptr - prev_footer - 3 * sizeof_int) (oldptr - sizeof_int))
             (oldptr - prev_footer - 3 * sizeof_int))"
    unfolding myfree_backward_def Let_def
    using assms(3,5) by (simp only: m assms(4) [symmetric] a if_True not_False_eq_True)
  then show ?thesis
    unfolding myfree_block_def Let_def assms(1,2) [symmetric] by simp
qed

theorem myfree_block_prev_header_witness:
  "1032 - sizeof_int \<noteq> mem st_fa \<and>
   0 < read_int st_fb_mid (1032 - sizeof_int - sizeof_int) \<and>
   myfree_block st_fa 1032 =
     myfree_forward (coalesce st_fb_mid 1000 1028) 1000 (node_space (coalesce st_fb_mid 1000 1028) 1000)"
proof -
  have h3: "1032 - sizeof_int \<noteq> mem st_fa" by (simp add: st_fa_mem sizeof_int_def)
  have f: "read_int st_fb_mid (1032 - sizeof_int - sizeof_int) = 20"
    by (simp add: st_fb_mid_prev_footer sizeof_int_def)
  have h5: "0 < read_int st_fb_mid (1032 - sizeof_int - sizeof_int)" using f by simp
  show ?thesis
    using h3 h5 f myfree_block_prev_header [OF st_fa_space [symmetric] st_fb_mid_eq h3 refl h5]
    by (simp add: Let_def sizeof_int_def)
qed

text \<open>
  In \<^verbatim>\<open>myfree(1032)\<close> on \<open>st_fa\<close> the previous block (header 1000, payload 20) is free.
  The merged block of payload \<open>20 + 20 + 2T\<close> has its header at
  \<open>1000 = 1032 - 20 - 3T\<close> and its footer at 1052; no header is written at
  \<open>1032 - 20 - 2T = 1004\<close>.
\<close>

theorem myfree_block_not_payload_minus_2T:
  "1032 - sizeof_int \<noteq> mem st_fa \<and>
   read_int st_fa (1032 - sizeof_int - sizeof_int) = 20 \<and>
   read_int (myfree_block st_fa 1032) (1032 - 20 - 3 * sizeof_int) = 20 + 20 + 2 * sizeof_int \<and>
   read_int (myfree_block st_fa 1032) (1032 - 20 - 3 * sizeof_int + sizeof_int + (20 + 20 + 2 * sizeof_int))
     = 20 + 20 + 2 * sizeof_int \<and>
   freeList (myfree_block st_fa 1032) = 1032 - 20 - 3 * sizeof_int \<and>
   read_int (myfree_block st_fa 1032) (1032 - 20 - 2 * sizeof_int) \<noteq> 20 + 20 + 2 * sizeof_int \<and>
   freeList (myfree_block st_fa 1032) \<noteq> 1032 - 20 - 2 * sizeof_int"
  by code_simp

section \<open>Splitting in myalloc\<close>

lemma st_c_inv: "heap_inv st_c [- 20, - 20, - 20, 108] [1084]"
  by code_simp

text \<open>
  C8 (as amended).  For a request \<open>\<ge> 0\<close> on a well-formed arena in which some block of
  the free list fits, \<^verbatim>\<open>myalloc\<close> returns the payload pointer of the block \<open>p\<close> that
  \<^verbatim>\<open>findHead\<close> chose, of payload \<open>t\<close>.  The effective size is \<open>e = max request L\<close> with
  \<open>L = sizeof(node) - sizeof(int)\<close> (20 bytes: the two link fields and the padding
  before them).  When \<open>t > e + 2T + L\<close> the block is split: the prefix is allocated with
  payload \<open>e\<close>, the suffix is a free block of payload \<open>t - e - 2T\<close> at \<open>p + e + 2T\<close>, and
  it is the head of the free list, from which \<open>p\<close> is removed and which is otherwise
  unchanged.  Otherwise the whole block is allocated with payload \<open>t\<close> and \<open>p\<close> is removed
  from the free list.  The tags of the other blocks are unchanged.
\<close>

theorem myalloc_split:
  assumes "heap_inv s ts fl" and "0 \<le> request" and "\<exists>q\<in>set fl. request \<le> node_space s q"
  shows "\<exists>ts1 t ts2 p s'.
           ts = ts1 @ t # ts2 \<and> p = mem s + total ts1 \<and> p = best_fit (node_space s) fl request \<and>
           node_space s p = t \<and> myalloc s request = Some (Inr (s', p + sizeof_int)) \<and>
           (let L = sizeof_node - sizeof_int; e = max request L
            in if t > e + 2 * sizeof_int + L
               then heap_inv s' (ts1 @ [- e, t - e - 2 * sizeof_int] @ ts2)
                      ((p + e + 2 * sizeof_int) # remove1 p fl)
               else heap_inv s' (ts1 @ [- t] @ ts2) (remove1 p fl))"
proof -
  from myalloc_found [OF assms] obtain ts1 t ts2 p where
    r: "ts = ts1 @ t # ts2" "p = mem s + total ts1" "0 < t" "p = best_fit (node_space s) fl request"
       "myalloc s request = Some (Inr (fst (myalloc_block s p request), p + sizeof_int))"
       "heap_inv (fst (myalloc_block s p request)) (ts1 @ alloc_tags t request @ ts2)
          (alloc_list p t request fl)"
    by blast
  from assms(1) have w: "arena_ok s (ts1 @ t # ts2) fl" by (simp add: heap_inv_def r(1))
  have sp: "node_space s p = t" using ok_block(7) [OF w r(2)] by (simp add: node_space_def)
  have "let L = sizeof_node - sizeof_int; e = max request L
        in if t > e + 2 * sizeof_int + L
           then heap_inv (fst (myalloc_block s p request)) (ts1 @ [- e, t - e - 2 * sizeof_int] @ ts2)
                  ((p + e + 2 * sizeof_int) # remove1 p fl)
           else heap_inv (fst (myalloc_block s p request)) (ts1 @ [- t] @ ts2) (remove1 p fl)"
    using r(6) by (simp add: alloc_tags_def alloc_list_def Let_def sizes split: if_splits)
  with r sp show ?thesis by blast
qed

theorem myalloc_split_witness:
  "heap_inv st_init [192] [1000] \<and> (0::int) \<le> 30 \<and> 30 \<le> node_space st_init 1000 \<and>
   (\<exists>s'. myalloc st_init 30 = Some (Inr (s', 1004)) \<and> heap_inv s' [- 30, 154] [1038]) \<and>
   heap_inv st_c [- 20, - 20, - 20, 108] [1084] \<and> 80 \<le> node_space st_c 1084 \<and>
   (\<exists>s'. myalloc st_c 80 = Some (Inr (s', 1088)) \<and> heap_inv s' [- 20, - 20, - 20, - 108] [])"
proof -
  have a: "node_space st_init 1000 = 192" "node_space st_c 1084 = 108"
    "mem st_init = 1000" "mem st_c = 1000" by code_simp+
  have f1: "\<exists>q\<in>set [1000]. 30 \<le> node_space st_init q" by (simp add: a)
  have f2: "\<exists>q\<in>set [1084]. 80 \<le> node_space st_c q" by (simp add: a)
  have b: "best_fit (node_space st_init) [1000] 30 = 1000" "best_fit (node_space st_c) [1084] 80 = 1084"
    by (simp_all add: best_fit_def fits_def min_space_def a)
  from myalloc_split [OF st_init_inv _ f1] obtain s1 where
    1: "myalloc st_init 30 = Some (Inr (s1, 1004))" "heap_inv s1 [- 30, 154] [1038]"
    by (auto simp: b a sizes Let_def Cons_eq_append_conv)
  from myalloc_split [OF st_c_inv _ f2] obtain s2 where
    2: "myalloc st_c 80 = Some (Inr (s2, 1088))" "heap_inv s2 [- 20, - 20, - 20, - 108] []"
    by (auto simp: b a sizes Let_def Cons_eq_append_conv append_eq_Cons_conv)
  show ?thesis using st_init_inv st_c_inv a 1 2 by simp
qed

text \<open>
  With \<open>L = 2 * sizeof(pointer) = 16\<close>: a request of 16 bytes on the fresh pool yields a
  block of payload 20, not 16; and a request of 80 bytes on \<open>st_c\<close>, whose free block has
  payload \<open>108 > 80 + 2T + 16\<close>, allocates the whole block of 108 bytes without a split.
\<close>

theorem myalloc_split_not_two_pointers:
  "max 16 (2 * sizeof_ptr) = 16 \<and> result_ptr (myalloc st_init 16) = Some (Inr 1004) \<and>
   read_int (fst (returned (myalloc st_init 16) (arena0, NULL))) 1000 = - 20 \<and>
   max 80 (2 * sizeof_ptr) = 80 \<and> node_space st_c 1084 = 108 \<and>
   108 > (80::int) + 2 * sizeof_int + 2 * sizeof_ptr \<and>
   result_ptr (myalloc st_c 80) = Some (Inr 1088) \<and>
   read_int (fst (returned (myalloc st_c 80) (arena0, NULL))) 1084 = - 108"
  by code_simp

section \<open>Reallocation on concrete arenas\<close>

lemma st_fa_inv: "heap_inv st_fa [20, - 20, - 20, 108] [1000, 1084]"
  by code_simp

lemma st_r4_inv: "heap_inv st_r4 [20, - 100, - 56] [1000]"
  by code_simp

text \<open>
  C2, at a failing input.  In \<open>st_fa\<close> the free list is \<open>[1000, 1084]\<close>.  The call
  \<^verbatim>\<open>myrealloc(1060, 10000)\<close> returns null.  Afterwards the blocks and their tags are as
  before, and the free list has the same members, but in the order \<open>[1084, 1000]\<close>: the
  rollback pushes the next neighbour, which \<^verbatim>\<open>myfree\<close> had merged, to the head of the list
  instead of its old place.  The state is not the state before the call.
\<close>

theorem myrealloc_undo_list_order:
  "result_ptr (myrealloc st_fa 1060 10000) = Some (Inr NULL) \<and>
   heap_inv st_fa [20, - 20, - 20, 108] [1000, 1084] \<and>
   heap_inv st_u [20, - 20, - 20, 108] [1084, 1000] \<and>
   freeList st_fa \<noteq> freeList st_u"
  by code_simp

text \<open>
  C4, at a failing input.  In \<open>st_r4\<close> the block of payload pointer 1032 has 100 bytes of
  payload, holding \<open>1, 2, \<dots>, 100\<close>, and the block before it (payload 20) is free.
  \<^verbatim>\<open>myrealloc(1032, 50)\<close> returns 1004: \<^verbatim>\<open>myfree\<close> merges the two blocks and \<^verbatim>\<open>myalloc\<close>
  splits the merged block at 50 bytes, which writes the footer of the new block and the
  header of the remainder into the old payload before it is copied.  The byte at offset
  22, which is among the first \<open>min 50 100\<close> bytes, was 23 and is 206 in the new block.
\<close>

theorem myrealloc_tramples_payload:
  "load_int (heap st_r4) (1032 - sizeof_int) = - 100 \<and>
   result_ptr (myrealloc st_r4 1032 50) = Some (Inr 1004) \<and>
   (22::int) < min 50 100 \<and>
   map (heap st_r4) [1032 + 20, 1032 + 21, 1032 + 22, 1032 + 23] = [21, 22, 23, 24] \<and>
   map (heap st_r5) [1004 + 20, 1004 + 21, 1004 + 22, 1004 + 23] = [21, 22, 206, 255]"
  by code_simp

end
